theory Spec2Isabelle
  imports Complex_Main "HOL-Library.Word"
begin

unbundle bit_operations_syntax

section \<open>Data model\<close>

text \<open>
  JavaScript strings are sequences of 16-bit code units. The string primitives below are
  polymorphic in the element type; the program uses them at \<open>jsstring\<close>.
\<close>

type_synonym jschar = "16 word"
type_synonym jsstring = "jschar list"

datatype op = DIFF_DELETE | DIFF_INSERT | DIFF_EQUAL

type_synonym Diff = "op \<times> jsstring"

record dmp_config =
  diffTimeout :: real
  diffEditCost :: nat
  matchThreshold :: real
  matchDistance :: nat
  patchDeleteThreshold :: real
  patchMargin :: nat
  matchMaxBits :: nat

definition default_config :: dmp_config where
  "default_config = \<lparr> diffTimeout = 1, diffEditCost = 4, matchThreshold = 1/2,
     matchDistance = 1000, patchDeleteThreshold = 1/2, patchMargin = 4, matchMaxBits = 32 \<rparr>"

section \<open>String primitives of the host language\<close>

text \<open>
  \<open>s.substring(a, b)\<close>: both indices are clamped to \<open>[0, length]\<close> and swapped when
  \<open>a > b\<close>. Indices are naturals here: an index expression \<open>x - y\<close> of the source
  that would go negative is clamped to 0 by \<open>substring\<close>, which is what truncating
  subtraction on \<open>nat\<close> yields.
\<close>

definition substring :: "'a list \<Rightarrow> nat \<Rightarrow> nat \<Rightarrow> 'a list" where
  "substring s a b = take (max a b - min a b) (drop (min a b) s)"

text \<open>\<open>s.substring(a)\<close>.\<close>

definition substring_from :: "'a list \<Rightarrow> nat \<Rightarrow> 'a list" where
  "substring_from s a = drop a s"

text \<open>
  \<open>s.indexOf(p, from)\<close>: the least \<open>k \<ge> min(from, |s|)\<close> at which \<open>p\<close> occurs in
  \<open>s\<close>; \<open>None\<close> stands for \<open>-1\<close>.
\<close>

function indexOf_from :: "'a list \<Rightarrow> 'a list \<Rightarrow> nat \<Rightarrow> nat option" where
  "indexOf_from s p k =
     (if length s < k + length p then None
      else if take (length p) (drop k s) = p then Some k
      else indexOf_from s p (Suc k))"
  by pat_completeness auto
termination
  by (relation "measure (\<lambda>(s, p, k). Suc (length s) - k)") auto

definition indexOf :: "'a list \<Rightarrow> 'a list \<Rightarrow> nat \<Rightarrow> nat option" where
  "indexOf s p from = indexOf_from s p (min from (length s))"

section \<open>Common prefix and suffix\<close>

text \<open>The binary-search loop of \<open>diffCommonPrefix\<close>.\<close>

function commonPrefix_loop ::
  "'a list \<Rightarrow> 'a list \<Rightarrow> nat \<Rightarrow> nat \<Rightarrow> nat \<Rightarrow> nat \<Rightarrow> nat" where
  "commonPrefix_loop text1 text2 pointermin pointermax pointermid pointerstart =
     (if pointermin < pointermid then
        (if substring text1 pointerstart pointermid = substring text2 pointerstart pointermid
         then commonPrefix_loop text1 text2 pointermid pointermax
                (pointermid + (pointermax - pointermid) div 2) pointermid
         else commonPrefix_loop text1 text2 pointermin pointermid
                (pointermin + (pointermid - pointermin) div 2) pointerstart)
      else pointermid)"
  by pat_completeness auto
termination
  by (relation "measure (\<lambda>(t1, t2, mn, mx, md, st).
        2 * (max mx md - mn) + (if mx \<le> md then 1 else 0))")
     (auto simp: max_def split: if_splits)

definition diffCommonPrefix :: "'a list \<Rightarrow> 'a list \<Rightarrow> nat" where
  "diffCommonPrefix text1 text2 =
     (if text1 = [] \<or> text2 = [] \<or> hd text1 \<noteq> hd text2 then 0
      else commonPrefix_loop text1 text2 0 (min (length text1) (length text2))
             (min (length text1) (length text2)) 0)"

function commonSuffix_loop ::
  "'a list \<Rightarrow> 'a list \<Rightarrow> nat \<Rightarrow> nat \<Rightarrow> nat \<Rightarrow> nat \<Rightarrow> nat" where
  "commonSuffix_loop text1 text2 pointermin pointermax pointermid pointerend =
     (if pointermin < pointermid then
        (if substring text1 (length text1 - pointermid) (length text1 - pointerend)
            = substring text2 (length text2 - pointermid) (length text2 - pointerend)
         then commonSuffix_loop text1 text2 pointermid pointermax
                (pointermid + (pointermax - pointermid) div 2) pointermid
         else commonSuffix_loop text1 text2 pointermin pointermid
                (pointermin + (pointermid - pointermin) div 2) pointerend)
      else pointermid)"
  by pat_completeness auto
termination
  by (relation "measure (\<lambda>(t1, t2, mn, mx, md, e).
        2 * (max mx md - mn) + (if mx \<le> md then 1 else 0))")
     (auto simp: max_def split: if_splits)

definition diffCommonSuffix :: "'a list \<Rightarrow> 'a list \<Rightarrow> nat" where
  "diffCommonSuffix text1 text2 =
     (if text1 = [] \<or> text2 = [] \<or> last text1 \<noteq> last text2 then 0
      else commonSuffix_loop text1 text2 0 (min (length text1) (length text2))
             (min (length text1) (length text2)) 0)"



declare indexOf_from.simps [simp del]
declare commonPrefix_loop.simps [simp del]
declare commonSuffix_loop.simps [simp del]

lemma indexOf_from_Some:
  "indexOf_from s p k = Some j \<Longrightarrow> k \<le> j \<and> j + length p \<le> length s \<and> take (length p) (drop j s) = p"
proof (induction s p k rule: indexOf_from.induct)
  case (1 s p k)
  then show ?case
    by (subst (asm) (2) indexOf_from.simps) (auto split: if_splits)
qed

lemma indexOf_Some:
  "indexOf s p from = Some j \<Longrightarrow> min from (length s) \<le> j \<and> j + length p \<le> length s \<and> take (length p) (drop j s) = p"
  unfolding indexOf_def by (rule indexOf_from_Some)

lemma commonPrefix_loop_sound:
  "take mn t1 = take mn t2 \<Longrightarrow> st = mn \<Longrightarrow> mn \<le> md \<Longrightarrow> md \<le> mx \<Longrightarrow>
   mx \<le> min (length t1) (length t2) \<Longrightarrow>
   commonPrefix_loop t1 t2 mn mx md st \<le> mx \<and>
   take (commonPrefix_loop t1 t2 mn mx md st) t1 = take (commonPrefix_loop t1 t2 mn mx md st) t2"
proof (induction t1 t2 mn mx md st rule: commonPrefix_loop.induct)
  case (1 t1 t2 mn mx md st)
  show ?case
  proof (cases "mn < md")
    case False
    then have "commonPrefix_loop t1 t2 mn mx md st = md"
      by (subst commonPrefix_loop.simps) simp
    with False 1 show ?thesis by simp
  next
    case lt: True
    show ?thesis
    proof (cases "substring t1 st md = substring t2 st md")
      case True
      then have e: "take (md - mn) (drop mn t1) = take (md - mn) (drop mn t2)"
        using 1(4,5) by (simp add: substring_def max_def min_def)
      have "take (mn + (md - mn)) t1 = take (mn + (md - mn)) t2"
        unfolding take_add using e 1(3) by simp
      then have t: "take md t1 = take md t2" using 1(5) by simp
      have "commonPrefix_loop t1 t2 md mx (md + (mx - md) div 2) md \<le> mx \<and>
            take (commonPrefix_loop t1 t2 md mx (md + (mx - md) div 2) md) t1 =
            take (commonPrefix_loop t1 t2 md mx (md + (mx - md) div 2) md) t2"
        using 1(1)[OF lt True t] 1(6,7) by simp
      moreover have "commonPrefix_loop t1 t2 mn mx md st =
          commonPrefix_loop t1 t2 md mx (md + (mx - md) div 2) md"
        by (subst commonPrefix_loop.simps) (simp add: lt True)
      ultimately show ?thesis by simp
    next
      case False
      have "commonPrefix_loop t1 t2 mn md (mn + (md - mn) div 2) st \<le> md \<and>
            take (commonPrefix_loop t1 t2 mn md (mn + (md - mn) div 2) st) t1 =
            take (commonPrefix_loop t1 t2 mn md (mn + (md - mn) div 2) st) t2"
        using 1(2)[OF lt False 1(3,4)] 1(5,6,7) by simp
      moreover have "commonPrefix_loop t1 t2 mn mx md st =
          commonPrefix_loop t1 t2 mn md (mn + (md - mn) div 2) st"
        by (subst commonPrefix_loop.simps) (simp add: lt False)
      ultimately show ?thesis using 1(6) by simp
    qed
  qed
qed

lemma diffCommonPrefix_sound:
  "diffCommonPrefix t1 t2 \<le> length t1 \<and> diffCommonPrefix t1 t2 \<le> length t2 \<and>
   take (diffCommonPrefix t1 t2) t1 = take (diffCommonPrefix t1 t2) t2"
proof (cases "t1 = [] \<or> t2 = [] \<or> hd t1 \<noteq> hd t2")
  case True
  then show ?thesis by (simp add: diffCommonPrefix_def)
next
  case False
  then have d: "diffCommonPrefix t1 t2 =
      commonPrefix_loop t1 t2 0 (min (length t1) (length t2)) (min (length t1) (length t2)) 0"
    by (simp add: diffCommonPrefix_def)
  show ?thesis unfolding d
    using commonPrefix_loop_sound[of 0 t1 t2 0 "min (length t1) (length t2)" "min (length t1) (length t2)"]
    by simp
qed


lemma substring_le: "a \<le> b \<Longrightarrow> substring s a b = take (b - a) (drop a s)"
  by (simp add: substring_def max_def min_def)

lemma substring_0: "substring s 0 b = take b s"
  by (simp add: substring_def)

lemma commonSuffix_loop_sound:
  "drop (length t1 - mn) t1 = drop (length t2 - mn) t2 \<Longrightarrow> e = mn \<Longrightarrow> mn \<le> md \<Longrightarrow>
   md \<le> mx \<Longrightarrow> mx \<le> min (length t1) (length t2) \<Longrightarrow>
   commonSuffix_loop t1 t2 mn mx md e \<le> mx \<and>
   drop (length t1 - commonSuffix_loop t1 t2 mn mx md e) t1 =
   drop (length t2 - commonSuffix_loop t1 t2 mn mx md e) t2"
proof (induction t1 t2 mn mx md e rule: commonSuffix_loop.induct)
  case (1 t1 t2 mn mx md e)
  show ?case
  proof (cases "mn < md")
    case False
    then have "commonSuffix_loop t1 t2 mn mx md e = md"
      by (subst commonSuffix_loop.simps) simp
    with False 1 show ?thesis by simp
  next
    case lt: True
    let ?c = "substring t1 (length t1 - md) (length t1 - e)
            = substring t2 (length t2 - md) (length t2 - e)"
    show ?thesis
    proof (cases ?c)
      case True
      have b: "md \<le> length t1" "md \<le> length t2" using 1(6,7) by auto
      have e: "take (md - mn) (drop (length t1 - md) t1) = take (md - mn) (drop (length t2 - md) t2)"
      proof -
        have "\<And>t::'a list. md \<le> length t \<Longrightarrow>
            substring t (length t - md) (length t - e) = take (md - mn) (drop (length t - md) t)"
          using 1(4,5) by (subst substring_le) auto
        then show ?thesis using True b by simp
      qed
      have s: "\<And>t::'a list. md \<le> length t \<Longrightarrow>
          drop (length t - md) t = take (md - mn) (drop (length t - md) t) @ drop (length t - mn) t"
      proof -
        fix t :: "'a list" assume "md \<le> length t"
        then have "drop (length t - mn) t = drop (md - mn) (drop (length t - md) t)"
          using 1(5) by simp
        then show "drop (length t - md) t = take (md - mn) (drop (length t - md) t) @ drop (length t - mn) t"
          by (metis append_take_drop_id)
      qed
      have t: "drop (length t1 - md) t1 = drop (length t2 - md) t2"
        using s[OF b(1)] s[OF b(2)] e 1(3) by simp
      have "commonSuffix_loop t1 t2 md mx (md + (mx - md) div 2) md \<le> mx \<and>
            drop (length t1 - commonSuffix_loop t1 t2 md mx (md + (mx - md) div 2) md) t1 =
            drop (length t2 - commonSuffix_loop t1 t2 md mx (md + (mx - md) div 2) md) t2"
        using 1(1)[OF lt True t] 1(6,7) by simp
      moreover have "commonSuffix_loop t1 t2 mn mx md e =
          commonSuffix_loop t1 t2 md mx (md + (mx - md) div 2) md"
        by (subst commonSuffix_loop.simps) (simp add: lt True)
      ultimately show ?thesis by simp
    next
      case False
      have "commonSuffix_loop t1 t2 mn md (mn + (md - mn) div 2) e \<le> md \<and>
            drop (length t1 - commonSuffix_loop t1 t2 mn md (mn + (md - mn) div 2) e) t1 =
            drop (length t2 - commonSuffix_loop t1 t2 mn md (mn + (md - mn) div 2) e) t2"
        using 1(2)[OF lt False 1(3,4)] 1(5,6,7) by simp
      moreover have "commonSuffix_loop t1 t2 mn mx md e =
          commonSuffix_loop t1 t2 mn md (mn + (md - mn) div 2) e"
        by (subst commonSuffix_loop.simps) (simp add: lt False)
      ultimately show ?thesis using 1(6) by simp
    qed
  qed
qed

lemma diffCommonSuffix_sound:
  "diffCommonSuffix t1 t2 \<le> length t1 \<and> diffCommonSuffix t1 t2 \<le> length t2 \<and>
   drop (length t1 - diffCommonSuffix t1 t2) t1 = drop (length t2 - diffCommonSuffix t1 t2) t2"
proof (cases "t1 = [] \<or> t2 = [] \<or> last t1 \<noteq> last t2")
  case True
  then show ?thesis by (simp add: diffCommonSuffix_def)
next
  case False
  then have d: "diffCommonSuffix t1 t2 =
      commonSuffix_loop t1 t2 0 (min (length t1) (length t2)) (min (length t1) (length t2)) 0"
    by (simp add: diffCommonSuffix_def)
  show ?thesis unfolding d
    using commonSuffix_loop_sound[of t1 0 t2 0 "min (length t1) (length t2)" "min (length t1) (length t2)"]
    by simp
qed


section \<open>Half match\<close>

text \<open>
  The state of the closure \<open>diffHalfMatchI_\<close>: \<open>bestCommon\<close> starts as the empty
  string, the four other variables start undefined (\<open>None\<close>).
\<close>

type_synonym 'a halfmatch =
  "'a list option \<times> 'a list option \<times> 'a list option \<times> 'a list option \<times> 'a list"

text \<open>
  The loop \<open>while ((j = shorttext.indexOf(seed, j + 1)) != -1)\<close>; \<open>from\<close> is \<open>j + 1\<close>.
  The closure is only called with a non-empty seed (the caller returns early when
  \<open>|longtext| < 4\<close>). On an empty seed the source loop would not terminate once
  \<open>j + 1\<close> passes the end of \<open>shorttext\<close>; that is the branch \<open>j < from\<close>, which this
  total model leaves by returning.
\<close>

function diffHalfMatchI_loop ::
  "'a list \<Rightarrow> 'a list \<Rightarrow> nat \<Rightarrow> 'a list \<Rightarrow> nat \<Rightarrow> 'a halfmatch \<Rightarrow> 'a halfmatch" where
  "diffHalfMatchI_loop longtext shorttext i seed from best =
     (case indexOf shorttext seed from of
        None \<Rightarrow> best
      | Some j \<Rightarrow>
          if j < from then best
          else
            let prefixLength =
                  diffCommonPrefix (substring_from longtext i) (substring_from shorttext j);
                suffixLength =
                  diffCommonSuffix (substring longtext 0 i) (substring shorttext 0 j)
            in diffHalfMatchI_loop longtext shorttext i seed (j + 1)
                 (case best of (bestLongtext_a, bestLongtext_b, bestShorttext_a, bestShorttext_b, bestCommon) \<Rightarrow>
                    if length bestCommon < suffixLength + prefixLength then
                      (Some (substring longtext 0 (i - suffixLength)),
                       Some (substring_from longtext (i + prefixLength)),
                       Some (substring shorttext 0 (j - suffixLength)),
                       Some (substring_from shorttext (j + prefixLength)),
                       substring shorttext (j - suffixLength) j @
                       substring shorttext j (j + prefixLength))
                    else best))"
  by pat_completeness auto
termination
proof (relation "measure (\<lambda>(l, s, i, seed, from, best). Suc (length s) - from)")
  show "wf (measure (\<lambda>(l, s, i, seed, from, best). Suc (length s) - from))" by simp
next
  fix longtext shorttext :: "'a list" and i :: nat and seed :: "'a list" and "from" :: nat
    and best :: "'a halfmatch" and x2 x xa
  assume a: "indexOf shorttext seed from = Some x2" "\<not> x2 < from"
  from indexOf_Some[OF a(1)] have "x2 \<le> length shorttext" by simp
  with a(2) show "((longtext, shorttext, i, seed, x2 + 1,
          case best of (bestLongtext_a, bestLongtext_b, bestShorttext_a, bestShorttext_b, bestCommon) \<Rightarrow>
            if length bestCommon < xa + x then
              (Some (substring longtext 0 (i - xa)), Some (substring_from longtext (i + x)),
               Some (substring shorttext 0 (x2 - xa)), Some (substring_from shorttext (x2 + x)),
               substring shorttext (x2 - xa) x2 @ substring shorttext x2 (x2 + x))
            else best),
         longtext, shorttext, i, seed, from, best)
        \<in> measure (\<lambda>(l, s, i, seed, from, best). Suc (length s) - from)"
    by simp
qed

definition diffHalfMatchI :: "'a list \<Rightarrow> 'a list \<Rightarrow> nat \<Rightarrow> 'a halfmatch option" where
  "diffHalfMatchI longtext shorttext i =
     (let seed = substring longtext i (i + length longtext div 4) in
      case diffHalfMatchI_loop longtext shorttext i seed 0 (None, None, None, None, []) of
        (bestLongtext_a, bestLongtext_b, bestShorttext_a, bestShorttext_b, bestCommon) \<Rightarrow>
          if length longtext \<le> length bestCommon * 2
          then Some (bestLongtext_a, bestLongtext_b, bestShorttext_a, bestShorttext_b, bestCommon)
          else None)"

text \<open>
  \<open>diffHalfMatch_\<close>. \<open>Math.ceil(n / 4)\<close> and \<open>Math.ceil(n / 2)\<close> on a length \<open>n\<close> are
  \<open>(n + 3) div 4\<close> and \<open>(n + 1) div 2\<close>.
\<close>

definition diffHalfMatch :: "dmp_config \<Rightarrow> 'a list \<Rightarrow> 'a list \<Rightarrow> 'a halfmatch option" where
  "diffHalfMatch dmp text1 text2 =
     (if diffTimeout dmp \<le> 0 then None
      else
        let longtext = (if length text1 > length text2 then text1 else text2);
            shorttext = (if length text1 > length text2 then text2 else text1)
        in if length longtext < 4 \<or> length shorttext * 2 < length longtext then None
           else
             let hm1 = diffHalfMatchI longtext shorttext ((length longtext + 3) div 4);
                 hm2 = diffHalfMatchI longtext shorttext ((length longtext + 1) div 2);
                 hm = (case (hm1, hm2) of
                         (None, None) \<Rightarrow> None
                       | (Some h1, None) \<Rightarrow> Some h1
                       | (None, Some h2) \<Rightarrow> Some h2
                       | (Some h1, Some h2) \<Rightarrow>
                           (if length (snd (snd (snd (snd h1)))) > length (snd (snd (snd (snd h2))))
                            then Some h1 else Some h2))
             in case hm of
                  None \<Rightarrow> None
                | Some (hm0, hm1, hm2, hm3, hm4) \<Rightarrow>
                    if length text1 > length text2 then Some (hm0, hm1, hm2, hm3, hm4)
                    else Some (hm2, hm3, hm0, hm1, hm4))"


declare diffHalfMatchI_loop.simps [simp del]

lemma split_at_two:
  "s \<le> j \<Longrightarrow> j \<le> length xs \<Longrightarrow>
   xs = take (j - s) xs @ (take s (drop (j - s) xs) @ take p (drop j xs)) @ drop (j + p) xs"
proof -
  assume a: "s \<le> j" "j \<le> length xs"
  have 1: "take (j - s) xs @ take s (drop (j - s) xs) = take j xs"
    using a take_add[of "j - s" s xs] by simp
  have 2: "take p (drop j xs) @ drop (j + p) xs = drop j xs"
    by (metis add.commute append_take_drop_id drop_drop)
  have "take j xs @ drop j xs = xs" by simp
  then show ?thesis using 1 2 by (metis append.assoc)
qed

lemma halfmatch_step:
  assumes i: "i \<le> length longtext" and j: "j \<le> length shorttext"
    and p: "p = diffCommonPrefix (substring_from longtext i) (substring_from shorttext j)"
    and s: "s = diffCommonSuffix (substring longtext 0 i) (substring shorttext 0 j)"
    and m: "m = substring shorttext (j - s) j @ substring shorttext j (j + p)"
  shows "longtext = substring longtext 0 (i - s) @ m @ substring_from longtext (i + p)"
    and "shorttext = substring shorttext 0 (j - s) @ m @ substring_from shorttext (j + p)"
proof -
  have li: "length (take i longtext) = i" and lj: "length (take j shorttext) = j"
    using i j by simp_all
  have s': "s = diffCommonSuffix (take i longtext) (take j shorttext)"
    using s by (simp add: substring_0)
  from diffCommonSuffix_sound[of "take i longtext" "take j shorttext"]
  have sb: "s \<le> i" "s \<le> j"
    and se: "drop (i - s) (take i longtext) = drop (j - s) (take j shorttext)"
    unfolding li lj s'[symmetric] by simp_all
  from diffCommonPrefix_sound[of "drop i longtext" "drop j shorttext"] p
  have pe: "take p (drop i longtext) = take p (drop j shorttext)"
    by (simp add: substring_from_def)
  have m1: "m = take s (drop (j - s) shorttext) @ take p (drop j shorttext)"
    using m sb by (simp add: substring_le)
  have "take s (drop (j - s) shorttext) = drop (j - s) (take j shorttext)"
    using sb by (simp add: drop_take)
  also have "\<dots> = take s (drop (i - s) longtext)"
    using se[symmetric] sb by (simp add: drop_take)
  finally have m2: "m = take s (drop (i - s) longtext) @ take p (drop i longtext)"
    using m1 pe by simp
  show "shorttext = substring shorttext 0 (j - s) @ m @ substring_from shorttext (j + p)"
    unfolding m1 substring_0 substring_from_def using split_at_two[OF sb(2) j] by simp
  show "longtext = substring longtext 0 (i - s) @ m @ substring_from longtext (i + p)"
    unfolding m2 substring_0 substring_from_def using split_at_two[OF sb(1) i] by simp
qed

definition halfmatch_ok :: "'a list \<Rightarrow> 'a list \<Rightarrow> 'a halfmatch \<Rightarrow> bool" where
  "halfmatch_ok longtext shorttext best =
     (case best of (a, b, c, d, m) \<Rightarrow>
        (m = [] \<and> a = None \<and> b = None \<and> c = None \<and> d = None) \<or>
        (\<exists>a' b' c' d'. a = Some a' \<and> b = Some b' \<and> c = Some c' \<and> d = Some d' \<and>
            longtext = a' @ m @ b' \<and> shorttext = c' @ m @ d'))"

lemma diffHalfMatchI_loop_ok:
  "i \<le> length longtext \<Longrightarrow> halfmatch_ok longtext shorttext best \<Longrightarrow>
   halfmatch_ok longtext shorttext (diffHalfMatchI_loop longtext shorttext i seed from best)"
proof (induction longtext shorttext i seed "from" best rule: diffHalfMatchI_loop.induct)
  case (1 longtext shorttext i seed "from" best)
  show ?case
  proof (cases "indexOf shorttext seed from")
    case None
    then show ?thesis using 1(3) by (subst diffHalfMatchI_loop.simps) simp
  next
    case (Some j)
    show ?thesis
    proof (cases "j < from")
      case True
      then show ?thesis using Some 1(3) by (subst diffHalfMatchI_loop.simps) simp
    next
      case False
      define p where "p = diffCommonPrefix (substring_from longtext i) (substring_from shorttext j)"
      define s where "s = diffCommonSuffix (substring longtext 0 i) (substring shorttext 0 j)"
      define m where "m = substring shorttext (j - s) j @ substring shorttext j (j + p)"
      define best' where "best' = (case best of (a, b, c, d, bc) \<Rightarrow>
            if length bc < s + p then
              (Some (substring longtext 0 (i - s)), Some (substring_from longtext (i + p)),
               Some (substring shorttext 0 (j - s)), Some (substring_from shorttext (j + p)), m)
            else best)"
      have j: "j \<le> length shorttext" using indexOf_Some[OF Some] by simp
      note st = halfmatch_step[OF 1(2) j p_def s_def m_def]
      have ok: "halfmatch_ok longtext shorttext best'"
      proof (cases best)
        case (fields a b c d bc)
        show ?thesis
        proof (cases "length bc < s + p")
          case True
          then have "best' = (Some (substring longtext 0 (i - s)), Some (substring_from longtext (i + p)),
               Some (substring shorttext 0 (j - s)), Some (substring_from shorttext (j + p)), m)"
            by (simp add: best'_def fields)
          then show ?thesis using st unfolding halfmatch_ok_def by auto
        next
          case False
          then show ?thesis using 1(3) by (simp add: best'_def fields)
        qed
      qed
      have u: "diffHalfMatchI_loop longtext shorttext i seed from best =
               diffHalfMatchI_loop longtext shorttext i seed (j + 1) best'"
        unfolding best'_def m_def s_def p_def
        by (subst diffHalfMatchI_loop.simps) (simp add: Some False Let_def)
      have ih: "halfmatch_ok longtext shorttext best' \<Longrightarrow>
          halfmatch_ok longtext shorttext (diffHalfMatchI_loop longtext shorttext i seed (j + 1) best')"
        unfolding best'_def m_def s_def p_def
        by (rule 1(1)[OF Some False refl refl 1(2)])
      show ?thesis unfolding u by (rule ih[OF ok])
    qed
  qed
qed

lemma diffHalfMatchI_sound:
  assumes "i \<le> length longtext" and "diffHalfMatchI longtext shorttext i = Some (a, b, c, d, m)"
    and "longtext \<noteq> []"
  shows "\<exists>a' b' c' d'. a = Some a' \<and> b = Some b' \<and> c = Some c' \<and> d = Some d' \<and>
            longtext = a' @ m @ b' \<and> shorttext = c' @ m @ d'"
    and "length longtext \<le> 2 * length m"
proof -
  let ?seed = "substring longtext i (i + length longtext div 4)"
  let ?r = "diffHalfMatchI_loop longtext shorttext i ?seed 0 (None, None, None, None, [])"
  have ok: "halfmatch_ok longtext shorttext ?r"
    by (rule diffHalfMatchI_loop_ok[OF assms(1)]) (simp add: halfmatch_ok_def)
  from assms(2) have r: "?r = (a, b, c, d, m)" and l: "length longtext \<le> length m * 2"
    by (auto simp: diffHalfMatchI_def Let_def split: prod.splits if_splits)
  from l show "length longtext \<le> 2 * length m" by simp
  from l assms(3) have "m \<noteq> []" by auto
  with ok r show "\<exists>a' b' c' d'. a = Some a' \<and> b = Some b' \<and> c = Some c' \<and> d = Some d' \<and>
            longtext = a' @ m @ b' \<and> shorttext = c' @ m @ d'"
    by (simp add: halfmatch_ok_def)
qed


text \<open>
  Claim C7. Whenever \<open>diffHalfMatch_\<close> returns a 5-tuple, none of its entries is undefined,
  \<open>text1\<close> is its first entry, the common middle and its second entry concatenated, 
  \<open>text2\<close> is its third entry, the common middle and its fourth entry concatenated, and
  twice the length of the common middle is at least the length of the longer text. When
  \<open>diffTimeout\<close> is zero or negative the function returns null.
\<close>

theorem diffHalfMatch_spec:
  "(diffTimeout dmp \<le> 0 \<longrightarrow> diffHalfMatch dmp text1 text2 = None) \<and>
   (\<forall>a b c d m. diffHalfMatch dmp text1 text2 = Some (a, b, c, d, m) \<longrightarrow>
      (\<exists>a' b' c' d'. a = Some a' \<and> b = Some b' \<and> c = Some c' \<and> d = Some d' \<and>
          text1 = a' @ m @ b' \<and> text2 = c' @ m @ d') \<and>
      max (length text1) (length text2) \<le> 2 * length m)"
proof (intro conjI allI impI)
  assume "diffTimeout dmp \<le> 0"
  then show "diffHalfMatch dmp text1 text2 = None" by (simp add: diffHalfMatch_def)
next
  fix a b c d m
  assume r: "diffHalfMatch dmp text1 text2 = Some (a, b, c, d, m)"
  define longtext where "longtext = (if length text1 > length text2 then text1 else text2)"
  define shorttext where "shorttext = (if length text1 > length text2 then text2 else text1)"
  define i1 where "i1 = (length longtext + 3) div 4"
  define i2 where "i2 = (length longtext + 1) div 2"
  from r have g: "\<not> length longtext < 4"
    by (auto simp: diffHalfMatch_def Let_def longtext_def shorttext_def split: if_splits)
  then have ne: "longtext \<noteq> []" and b1: "i1 \<le> length longtext" and b2: "i2 \<le> length longtext"
    by (auto simp: i1_def i2_def)
  obtain h0 h1 h2 h3 where
    h: "diffHalfMatchI longtext shorttext i1 = Some (h0, h1, h2, h3, m) \<or>
        diffHalfMatchI longtext shorttext i2 = Some (h0, h1, h2, h3, m)"
    and o: "if length text1 > length text2 then (a, b, c, d) = (h0, h1, h2, h3)
            else (a, b, c, d) = (h2, h3, h0, h1)"
    using r unfolding diffHalfMatch_def Let_def longtext_def[symmetric] shorttext_def[symmetric]
      i1_def[symmetric] i2_def[symmetric]
    by (auto split: if_splits option.splits prod.splits)
  from h obtain i where i: "i \<le> length longtext"
      and hi: "diffHalfMatchI longtext shorttext i = Some (h0, h1, h2, h3, m)"
    using b1 b2 by blast
  from diffHalfMatchI_sound[OF i hi ne]
  obtain a' b' c' d' where s: "h0 = Some a'" "h1 = Some b'" "h2 = Some c'" "h3 = Some d'"
      "longtext = a' @ m @ b'" "shorttext = c' @ m @ d'" and l: "length longtext \<le> 2 * length m"
    by blast
  have ml: "max (length text1) (length text2) = length longtext"
    by (simp add: longtext_def)
  show "\<exists>a' b' c' d'. a = Some a' \<and> b = Some b' \<and> c = Some c' \<and> d = Some d' \<and>
          text1 = a' @ m @ b' \<and> text2 = c' @ m @ d'"
    using o s by (auto simp: longtext_def shorttext_def split: if_splits)
  show "max (length text1) (length text2) \<le> 2 * length m"
    using l ml by simp
qed

theorem diffHalfMatch_spec_witness:
  "diffHalfMatch default_config ''1234567890'' ''a345678z'' =
      Some (Some ''12'', Some ''90'', Some ''a'', Some ''z'', ''345678'') \<and>
   ''1234567890'' = ''12'' @ ''345678'' @ ''90'' \<and>
   ''a345678z'' = ''a'' @ ''345678'' @ ''z'' \<and>
   max (length ''1234567890'') (length ''a345678z'') \<le> 2 * length ''345678'' \<and>
   diffTimeout (default_config\<lparr>diffTimeout := 0\<rparr>) \<le> 0 \<and>
   diffHalfMatch (default_config\<lparr>diffTimeout := 0\<rparr>) ''1234567890'' ''a345678z'' = None"
proof -
  have e: "diffHalfMatch default_config ''1234567890'' ''a345678z'' =
      Some (Some ''12'', Some ''90'', Some ''a'', Some ''z'', ''345678'')"
    by (simp add: diffHalfMatch_def diffHalfMatchI_def diffHalfMatchI_loop.simps indexOf_def
        indexOf_from.simps diffCommonPrefix_def diffCommonSuffix_def commonPrefix_loop.simps
        commonSuffix_loop.simps substring_def substring_from_def default_config_def Let_def)
  have z: "diffTimeout (default_config\<lparr>diffTimeout := 0\<rparr>) \<le> 0" by simp
  from diffHalfMatch_spec[of default_config "''1234567890''" "''a345678z''"] e
  have 1: "''1234567890'' = ''12'' @ ''345678'' @ ''90'' \<and>
      ''a345678z'' = ''a'' @ ''345678'' @ ''z'' \<and>
      max (length ''1234567890'') (length ''a345678z'') \<le> 2 * length ''345678''"
    by simp
  from diffHalfMatch_spec[of "default_config\<lparr>diffTimeout := 0\<rparr>" "''1234567890''" "''a345678z''"] z
  have 2: "diffHalfMatch (default_config\<lparr>diffTimeout := 0\<rparr>) ''1234567890'' ''a345678z'' = None"
    by blast
  from e 1 2 z show ?thesis by blast
qed


section \<open>Cleanup: merge\<close>

text \<open>An ASCII literal as a string of code units.\<close>

definition js :: "string \<Rightarrow> jsstring" where
  "js s = map (\<lambda>c. of_nat (of_char c)) s"

text \<open>\<open>xs.splice(start, deleteCount, items...)\<close>, the array after the call.\<close>

definition array_splice :: "'a list \<Rightarrow> nat \<Rightarrow> nat \<Rightarrow> 'a list \<Rightarrow> 'a list" where
  "array_splice xs start deleteCount items = take start xs @ items @ drop (start + deleteCount) xs"

text \<open>
  First sweep of \<open>diffCleanupMerge\<close>, the part of the \<open>DIFF_EQUAL\<close> case that factors
  the common prefix and suffix out of the collected texts. Result: the array, the
  pointer, \<open>textInsert\<close> and \<open>textDelete\<close>.
\<close>

definition cleanupMerge_factor ::
  "Diff list \<Rightarrow> nat \<Rightarrow> nat \<Rightarrow> nat \<Rightarrow> jsstring \<Rightarrow> jsstring
     \<Rightarrow> Diff list \<times> nat \<times> jsstring \<times> jsstring" where
  "cleanupMerge_factor ds pointer countDelete countInsert textDelete textInsert =
     (let commonlength = diffCommonPrefix textInsert textDelete;
          idx = pointer - countDelete - countInsert - 1;
          (ds1, pointer1, textInsert1, textDelete1) =
            (if commonlength \<noteq> 0 then
               (if pointer - countDelete - countInsert > 0 \<and> fst (ds ! idx) = DIFF_EQUAL
                then (ds[idx := (fst (ds ! idx),
                                       snd (ds ! idx) @ substring textInsert 0 commonlength)],
                      pointer,
                      substring_from textInsert commonlength,
                      substring_from textDelete commonlength)
                else (array_splice ds 0 0 [(DIFF_EQUAL, substring textInsert 0 commonlength)],
                      pointer + 1,
                      substring_from textInsert commonlength,
                      substring_from textDelete commonlength))
             else (ds, pointer, textInsert, textDelete));
          commonlength2 = diffCommonSuffix textInsert1 textDelete1
      in if commonlength2 \<noteq> 0 then
           (ds1[pointer1 := (fst (ds1 ! pointer1),
                                substring_from textInsert1 (length textInsert1 - commonlength2)
                                  @ snd (ds1 ! pointer1))],
            pointer1,
            substring textInsert1 0 (length textInsert1 - commonlength2),
            substring textDelete1 0 (length textDelete1 - commonlength2))
         else (ds1, pointer1, textInsert1, textDelete1))"

text \<open>The whole \<open>DIFF_EQUAL\<close> case of the first sweep: the array and the pointer after it.\<close>

definition cleanupMerge_equal ::
  "Diff list \<Rightarrow> nat \<Rightarrow> nat \<Rightarrow> nat \<Rightarrow> jsstring \<Rightarrow> jsstring \<Rightarrow> Diff list \<times> nat" where
  "cleanupMerge_equal ds pointer countDelete countInsert textDelete textInsert =
     (if countDelete + countInsert > 1 then
        (let (ds1, pointer1, textInsert1, textDelete1) =
               (if countDelete \<noteq> 0 \<and> countInsert \<noteq> 0
                then cleanupMerge_factor ds pointer countDelete countInsert textDelete textInsert
                else (ds, pointer, textInsert, textDelete));
             pointer2 = pointer1 - (countDelete + countInsert);
             ds2 = array_splice ds1 pointer2 (countDelete + countInsert) [];
             (ds3, pointer3) =
               (if textDelete1 \<noteq> []
                then (array_splice ds2 pointer2 0 [(DIFF_DELETE, textDelete1)], pointer2 + 1)
                else (ds2, pointer2));
             (ds4, pointer4) =
               (if textInsert1 \<noteq> []
                then (array_splice ds3 pointer3 0 [(DIFF_INSERT, textInsert1)], pointer3 + 1)
                else (ds3, pointer3))
         in (ds4, pointer4 + 1))
      else if pointer \<noteq> 0 \<and> fst (ds ! (pointer - 1)) = DIFF_EQUAL then
        (array_splice (ds[pointer - 1 := (fst (ds ! (pointer - 1)),
                                       snd (ds ! (pointer - 1)) @ snd (ds ! pointer))])
           pointer 1 [],
         pointer)
      else (ds, pointer + 1))"

lemma cleanupMerge_factor_length:
  "cleanupMerge_factor ds pointer cd ci td ti = (ds1, pointer1, ti1, td1) \<Longrightarrow>
   (pointer1 = pointer \<and> length ds1 = length ds) \<or>
   (pointer1 = pointer + 1 \<and> length ds1 = length ds + 1)"
  by (auto simp: cleanupMerge_factor_def Let_def array_splice_def split: if_splits)

lemma cleanupMerge_equal_measure:
  assumes "pointer < length ds"
    and "cleanupMerge_equal ds pointer cd ci td ti = (ds', pointer')"
  shows "length ds' - pointer' < length ds - pointer"
proof (cases "cd + ci > 1")
  case True
  obtain ds1 pointer1 ti1 td1 where
    f: "(if cd \<noteq> 0 \<and> ci \<noteq> 0 then cleanupMerge_factor ds pointer cd ci td ti
         else (ds, pointer, ti, td)) = (ds1, pointer1, ti1, td1)"
    by (metis prod_cases4)
  have l: "(pointer1 = pointer \<and> length ds1 = length ds) \<or>
           (pointer1 = pointer + 1 \<and> length ds1 = length ds + 1)"
    using f cleanupMerge_factor_length by (auto split: if_splits)
  define p2 where "p2 = pointer1 - (cd + ci)"
  define d2 where "d2 = array_splice ds1 p2 (cd + ci) []"
  have l2: "length d2 - p2 \<le> length ds1 - pointer1 \<and> p2 \<le> length d2"
    using l assms(1) by (auto simp: d2_def p2_def array_splice_def)
  have e: "cleanupMerge_equal ds pointer cd ci td ti =
      (let (ds3, pointer3) =
               (if td1 \<noteq> []
                then (array_splice d2 p2 0 [(DIFF_DELETE, td1)], p2 + 1)
                else (d2, p2));
             (ds4, pointer4) =
               (if ti1 \<noteq> []
                then (array_splice ds3 pointer3 0 [(DIFF_INSERT, ti1)], pointer3 + 1)
                else (ds3, pointer3))
         in (ds4, pointer4 + 1))"
    unfolding cleanupMerge_equal_def f d2_def p2_def using True by (simp add: Let_def)
  have "length ds' - pointer' = length d2 - p2 - 1"
    using assms(2) l2 unfolding e
    by (cases "td1 = []"; cases "ti1 = []") (auto simp: array_splice_def)
  then show ?thesis using l l2 assms(1) by auto
next
  case False
  then show ?thesis using assms
    by (auto simp: cleanupMerge_equal_def array_splice_def split: if_splits)
qed

function cleanupMerge_loop1 ::
  "Diff list \<Rightarrow> nat \<Rightarrow> nat \<Rightarrow> nat \<Rightarrow> jsstring \<Rightarrow> jsstring \<Rightarrow> Diff list" where
  "cleanupMerge_loop1 ds pointer countDelete countInsert textDelete textInsert =
     (if pointer < length ds then
        (case fst (ds ! pointer) of
           DIFF_INSERT \<Rightarrow>
             cleanupMerge_loop1 ds (pointer + 1) countDelete (countInsert + 1)
               textDelete (textInsert @ snd (ds ! pointer))
         | DIFF_DELETE \<Rightarrow>
             cleanupMerge_loop1 ds (pointer + 1) (countDelete + 1) countInsert
               (textDelete @ snd (ds ! pointer)) textInsert
         | DIFF_EQUAL \<Rightarrow>
             (case cleanupMerge_equal ds pointer countDelete countInsert textDelete textInsert of
                (ds', pointer') \<Rightarrow> cleanupMerge_loop1 ds' pointer' 0 0 [] []))
      else ds)"
  by pat_completeness auto
termination
  by (relation "measure (\<lambda>(ds, pointer, cd, ci, td, ti). length ds - pointer)")
     (auto dest: cleanupMerge_equal_measure[OF _ sym])

text \<open>
  Second sweep: a single edit between two equalities is shifted over the equality it
  ends or starts with. \<open>pointer < diffs.length - 1\<close> is \<open>pointer + 1 < length ds\<close>.
\<close>

function cleanupMerge_loop2 :: "Diff list \<Rightarrow> nat \<Rightarrow> bool \<Rightarrow> Diff list \<times> bool" where
  "cleanupMerge_loop2 ds pointer changes =
     (if pointer + 1 < length ds then
        (let prev = snd (ds ! (pointer - 1));
             cur = snd (ds ! pointer);
             nxt = snd (ds ! (pointer + 1))
         in if fst (ds ! (pointer - 1)) = DIFF_EQUAL \<and> fst (ds ! (pointer + 1)) = DIFF_EQUAL
            then
              (if substring_from cur (length cur - length prev) = prev then
                 cleanupMerge_loop2
                   (array_splice
                      (ds[pointer := (fst (ds ! pointer),
                                         prev @ substring cur 0 (length cur - length prev)),
                             pointer + 1 := (fst (ds ! (pointer + 1)), prev @ nxt)])
                      (pointer - 1) 1 [])
                   (pointer + 1) True
               else if substring cur 0 (length nxt) = nxt then
                 cleanupMerge_loop2
                   (array_splice
                      (ds[pointer - 1 := (fst (ds ! (pointer - 1)), prev @ nxt),
                             pointer := (fst (ds ! pointer),
                                         substring_from cur (length nxt) @ nxt)])
                      (pointer + 1) 1 [])
                   (pointer + 1) True
               else cleanupMerge_loop2 ds (pointer + 1) changes)
            else cleanupMerge_loop2 ds (pointer + 1) changes)
      else (ds, changes))"
  by pat_completeness auto
termination
  by (relation "measure (\<lambda>(ds, pointer, changes). length ds - pointer)")
     (auto simp: array_splice_def)

text \<open>
  \<open>diffCleanupMerge\<close>. The source changes the array in place; the model returns the
  array after the call. \<open>None\<close> stands for a call that does not return: the function
  calls itself again whenever the second sweep changed something. The first sweep never
  empties the array (the dummy entry or an equality it was merged into stays), so
  \<open>diffs[diffs.length - 1]\<close> exists.
\<close>

partial_function (option) diffCleanupMerge :: "Diff list \<Rightarrow> Diff list option" where
  "diffCleanupMerge ds =
     (let ds1 = cleanupMerge_loop1 (ds @ [(DIFF_EQUAL, [])]) 0 0 0 [] [];
          ds2 = (if snd (last ds1) = [] then butlast ds1 else ds1);
          r = cleanupMerge_loop2 ds2 1 False
      in if snd r then diffCleanupMerge (fst r) else Some (fst r))"

declare cleanupMerge_loop1.simps [simp del]
declare cleanupMerge_loop2.simps [simp del]

lemmas cleanupMerge_eval =
  cleanupMerge_loop1.simps cleanupMerge_loop2.simps cleanupMerge_equal_def
  cleanupMerge_factor_def array_splice_def js_def Let_def
  diffCommonPrefix_def diffCommonSuffix_def commonPrefix_loop.simps
  commonSuffix_loop.simps substring_def substring_from_def

declare diffCleanupMerge.simps [code]

lemma cleanupMerge_cancelled_run:
  "diffCleanupMerge [(DIFF_EQUAL, js ''a''), (DIFF_DELETE, js ''x''), (DIFF_INSERT, js ''x''),
                     (DIFF_EQUAL, js ''b'')]
   = Some [(DIFF_EQUAL, js ''ax''), (DIFF_EQUAL, js ''b'')]"
  by (subst diffCleanupMerge.simps) (simp add: cleanupMerge_eval)

lemma cleanupMerge_two_equalities:
  "diffCleanupMerge [(DIFF_EQUAL, js ''ax''), (DIFF_EQUAL, js ''b'')]
   = Some [(DIFF_EQUAL, js ''axb'')]"
  by (subst diffCleanupMerge.simps) (simp add: cleanupMerge_eval)

text \<open>
  Claim C2 (the code at the failing input). The claim says that after \<open>diffCleanupMerge\<close>
  no two consecutive entries have the same operation. On the script
  \<open>[(=, "a"), (-, "x"), (+, "x"), (=, "b")]\<close> the deleted and the inserted text cancel as a
  common prefix, the edit run disappears, and the call returns
  \<open>[(=, "ax"), (=, "b")]\<close>: two equalities in a row.
\<close>

theorem cleanupMerge_adjacent_equalities:
  "diffCleanupMerge [(DIFF_EQUAL, js ''a''), (DIFF_DELETE, js ''x''), (DIFF_INSERT, js ''x''),
                     (DIFF_EQUAL, js ''b'')]
     = Some [(DIFF_EQUAL, js ''ax''), (DIFF_EQUAL, js ''b'')] \<and>
   fst ((DIFF_EQUAL, js ''ax'') :: Diff) = fst ((DIFF_EQUAL, js ''b'') :: Diff)"
  using cleanupMerge_cancelled_run by simp

text \<open>
  Claim C3 (the code at the failing input). The claim says that a second application of
  \<open>diffCleanupMerge\<close> changes nothing. On the same script the first application returns
  \<open>[(=, "ax"), (=, "b")]\<close> and the second one merges the two equalities into
  \<open>[(=, "axb")]\<close>.
\<close>

theorem cleanupMerge_second_application_differs:
  "diffCleanupMerge [(DIFF_EQUAL, js ''a''), (DIFF_DELETE, js ''x''), (DIFF_INSERT, js ''x''),
                     (DIFF_EQUAL, js ''b'')]
     = Some [(DIFF_EQUAL, js ''ax''), (DIFF_EQUAL, js ''b'')] \<and>
   diffCleanupMerge [(DIFF_EQUAL, js ''ax''), (DIFF_EQUAL, js ''b'')]
     = Some [(DIFF_EQUAL, js ''axb'')] \<and>
   [(DIFF_EQUAL, js ''axb'')] \<noteq> [(DIFF_EQUAL, js ''ax''), (DIFF_EQUAL, js ''b'')]"
  using cleanupMerge_cancelled_run cleanupMerge_two_equalities by simp


section \<open>Texts of a diff\<close>

text \<open>
  \<open>diffText1\<close> and \<open>diffText2\<close>: the entries kept are joined; an index the loop skips
  is a hole of the array, which \<open>join\<close> renders as the empty string.
\<close>

definition diffText1 :: "Diff list \<Rightarrow> jsstring" where
  "diffText1 ds = concat (map (\<lambda>d. if fst d \<noteq> DIFF_INSERT then snd d else []) ds)"

definition diffText2 :: "Diff list \<Rightarrow> jsstring" where
  "diffText2 ds = concat (map (\<lambda>d. if fst d \<noteq> DIFF_DELETE then snd d else []) ds)"

section \<open>Patches\<close>

text \<open>
  \<open>patchObj\<close>: \<open>start1\<close> and \<open>start2\<close> are \<open>null\<close> (\<open>None\<close>) in a new object. In
  arithmetic \<open>null\<close> counts as 0 (\<open>num\<close>).
\<close>

record patchObj =
  diffs :: "Diff list"
  start1 :: "int option"
  start2 :: "int option"
  length1 :: nat
  length2 :: nat

definition new_patchObj :: patchObj where
  "new_patchObj = \<lparr> diffs = [], start1 = None, start2 = None, length1 = 0, length2 = 0 \<rparr>"

definition num :: "int option \<Rightarrow> int" where
  "num v = (case v of None \<Rightarrow> 0 | Some n \<Rightarrow> n)"

datatype error =
    NullInput
  | PatternTooLong
  | IllegalEscape
  | InvalidNumber
  | InvalidOp
  | DeltaLengthMismatch
  | InvalidPatchHeader
  | InvalidPatchMode
  | InvalidCallShape
  | PatchNotInitialized
  | URIError
  | TypeError
  | RangeError

text \<open>
  The invariant of the specification's data model: \<open>length1\<close> is the sum of the text
  lengths of the entries that are not insertions, \<open>length2\<close> of those that are not
  deletions.
\<close>

definition patch_lengths_ok :: "patchObj \<Rightarrow> bool" where
  "patch_lengths_ok p \<longleftrightarrow>
     length1 p = sum_list (map (\<lambda>d. if fst d \<noteq> DIFF_INSERT then length (snd d) else 0) (diffs p)) \<and>
     length2 p = sum_list (map (\<lambda>d. if fst d \<noteq> DIFF_DELETE then length (snd d) else 0) (diffs p))"

text \<open>\<open>s.substring(a, b)\<close> with indices that may be negative: each is clamped at 0.\<close>

definition substring_int :: "'a list \<Rightarrow> int \<Rightarrow> int \<Rightarrow> 'a list" where
  "substring_int s a b = substring s (nat a) (nat b)"

text \<open>
  \<open>s.lastIndexOf(p, from)\<close>: the greatest \<open>k \<le> min(from, |s| - |p|)\<close> at which \<open>p\<close>
  occurs in \<open>s\<close>. Without a second argument \<open>from\<close> is \<open>|s|\<close>.
\<close>

fun lastIndexOf_down :: "'a list \<Rightarrow> 'a list \<Rightarrow> nat \<Rightarrow> nat option" where
  "lastIndexOf_down s p 0 = (if take (length p) s = p then Some 0 else None)"
| "lastIndexOf_down s p (Suc k) =
     (if take (length p) (drop (Suc k) s) = p then Some (Suc k) else lastIndexOf_down s p k)"

definition lastIndexOf :: "'a list \<Rightarrow> 'a list \<Rightarrow> nat \<Rightarrow> nat option" where
  "lastIndexOf s p from =
     (if length s < length p then None
      else lastIndexOf_down s p (min from (length s - length p)))"

subsection \<open>patchAddContext\<close>

text \<open>
  The loop that widens the pattern. The pattern is a function of \<open>padding\<close>, so
  \<open>padding\<close> is the only loop variable. With \<open>patchMargin = 0\<close> an iteration changes
  nothing and the source loop does not return: \<open>None\<close>.
\<close>

lemma indexOf_self: "indexOf s s 0 = Some 0"
  by (simp add: indexOf_def indexOf_from.simps)

lemma lastIndexOf_self: "lastIndexOf s s (length s) = Some 0"
  by (simp add: lastIndexOf_def)

lemma substring_int_whole:
  "a \<le> 0 \<Longrightarrow> int (length s) \<le> b \<Longrightarrow> substring_int s a b = s"
  by (simp add: substring_int_def substring_def max_def min_def)

function patchAddContext_loop ::
  "dmp_config \<Rightarrow> jsstring \<Rightarrow> int \<Rightarrow> nat \<Rightarrow> nat \<Rightarrow> nat option" where
  "patchAddContext_loop dmp text s2 l1 padding =
     (let pattern = substring_int text (s2 - int padding) (s2 + int l1 + int padding)
      in if indexOf text pattern 0 \<noteq> lastIndexOf text pattern (length text) \<and>
            int (length pattern) < int (matchMaxBits dmp) - int (patchMargin dmp) - int (patchMargin dmp)
         then (if patchMargin dmp = 0 then None
               else patchAddContext_loop dmp text s2 l1 (padding + patchMargin dmp))
         else Some padding)"
  by pat_completeness auto
termination
proof (relation "measure (\<lambda>(dmp, text, s2, l1, padding).
          nat (max s2 (int (length text) - s2 - int l1)) + 1 - padding)")
  show "wf (measure (\<lambda>(dmp, text, s2, l1, padding).
          nat (max s2 (int (length text) - s2 - int l1)) + 1 - padding))" by simp
next
  fix dmp :: dmp_config and tx :: jsstring and s2 :: int and l1 padding :: nat and x
  assume x: "x = substring_int tx (s2 - int padding) (s2 + int l1 + int padding)"
    and c: "indexOf tx x 0 \<noteq> lastIndexOf tx x (length tx) \<and>
            int (length x) < int (matchMaxBits dmp) - int (patchMargin dmp) - int (patchMargin dmp)"
    and m: "patchMargin dmp \<noteq> 0"
  have "x \<noteq> tx" using c indexOf_self lastIndexOf_self by metis
  then have "\<not> (s2 - int padding \<le> 0 \<and> int (length tx) \<le> s2 + int l1 + int padding)"
    using x substring_int_whole by blast
  then have "int padding < max s2 (int (length tx) - s2 - int l1)" by auto
  then show "((dmp, tx, s2, l1, padding + patchMargin dmp), dmp, tx, s2, l1, padding)
      \<in> measure (\<lambda>(dmp, text, s2, l1, padding).
          nat (max s2 (int (length text) - s2 - int l1)) + 1 - padding)"
    using m by auto
qed

text \<open>
  \<open>patchAddContext_\<close>. The result is the patch after the call (the source changes it in
  place); \<open>Inl\<close> is a thrown error, \<open>None\<close> a call that does not return.
\<close>

definition patchAddContext :: "dmp_config \<Rightarrow> patchObj \<Rightarrow> jsstring \<Rightarrow> (error + patchObj) option" where
  "patchAddContext dmp patch text =
     (if length text = 0 then Some (Inr patch)
      else case start2 patch of
        None \<Rightarrow> Some (Inl PatchNotInitialized)
      | Some s2 \<Rightarrow>
         (case patchAddContext_loop dmp text s2 (length1 patch) 0 of
            None \<Rightarrow> None
          | Some padding0 \<Rightarrow>
             let padding = padding0 + patchMargin dmp;
                 prefix = substring_int text (s2 - int padding) s2;
                 ds1 = (if prefix \<noteq> [] then (DIFF_EQUAL, prefix) # diffs patch else diffs patch);
                 suffix = substring_int text (s2 + int (length1 patch))
                            (s2 + int (length1 patch) + int padding);
                 ds2 = (if suffix \<noteq> [] then ds1 @ [(DIFF_EQUAL, suffix)] else ds1)
             in Some (Inr \<lparr> diffs = ds2,
                             start1 = Some (num (start1 patch) - int (length prefix)),
                             start2 = Some (s2 - int (length prefix)),
                             length1 = length1 patch + (length prefix + length suffix),
                             length2 = length2 patch + (length prefix + length suffix) \<rparr>)))"


subsection \<open>patchMake\<close>

text \<open>
  The loop of \<open>patchMake\<close> over the diffs, after the texts and the diffs have been
  taken from the arguments. The first argument of the loop is what is left of the
  array, so \<open>diffs.length != x + 1\<close> is \<open>rest \<noteq> []\<close>. The source's \<open>patchDiffLength\<close>
  is its own count of \<open>patch.diffs.length\<close> (every write is
  \<open>patch.diffs[patchDiffLength++] = ...\<close>), read here from the list.
\<close>

fun patchMake_loop ::
  "dmp_config \<Rightarrow> Diff list \<Rightarrow> patchObj list \<Rightarrow> patchObj \<Rightarrow> nat \<Rightarrow> nat \<Rightarrow> jsstring \<Rightarrow> jsstring
     \<Rightarrow> (error + patchObj list) option" where
  "patchMake_loop dmp [] patches patch charCount1 charCount2 prepatchText postpatchText =
     (if diffs patch \<noteq> [] then
        (case patchAddContext dmp patch prepatchText of
           None \<Rightarrow> None
         | Some (Inl e) \<Rightarrow> Some (Inl e)
         | Some (Inr p) \<Rightarrow> Some (Inr (patches @ [p])))
      else Some (Inr patches))"
| "patchMake_loop dmp (d # rest) patches patch0 charCount1 charCount2 prepatchText postpatchText =
     (let diffType = fst d;
          diffText = snd d;
          patch = (if diffs patch0 = [] \<and> diffType \<noteq> DIFF_EQUAL
                   then patch0\<lparr>start1 := Some (int charCount1), start2 := Some (int charCount2)\<rparr>
                   else patch0)
      in case diffType of
           DIFF_INSERT \<Rightarrow>
             patchMake_loop dmp rest patches
               (patch\<lparr>diffs := diffs patch @ [d], length2 := length2 patch + length diffText\<rparr>)
               charCount1 (charCount2 + length diffText) prepatchText
               (substring postpatchText 0 charCount2 @ diffText @
                substring_from postpatchText charCount2)
         | DIFF_DELETE \<Rightarrow>
             patchMake_loop dmp rest patches
               (patch\<lparr>length1 := length1 patch + length diffText, diffs := diffs patch @ [d]\<rparr>)
               (charCount1 + length diffText) charCount2 prepatchText
               (substring postpatchText 0 charCount2 @
                substring_from postpatchText (charCount2 + length diffText))
         | DIFF_EQUAL \<Rightarrow>
             if length diffText \<le> 2 * patchMargin dmp \<and> diffs patch \<noteq> [] \<and> rest \<noteq> [] then
               patchMake_loop dmp rest patches
                 (patch\<lparr>diffs := diffs patch @ [d],
                        length1 := length1 patch + length diffText,
                        length2 := length2 patch + length diffText\<rparr>)
                 (charCount1 + length diffText) (charCount2 + length diffText)
                 prepatchText postpatchText
             else if 2 * patchMargin dmp \<le> length diffText \<and> diffs patch \<noteq> [] then
               (case patchAddContext dmp patch prepatchText of
                  None \<Rightarrow> None
                | Some (Inl e) \<Rightarrow> Some (Inl e)
                | Some (Inr p) \<Rightarrow>
                    patchMake_loop dmp rest (patches @ [p]) new_patchObj
                      (charCount2 + length diffText) (charCount2 + length diffText)
                      postpatchText postpatchText)
             else
               patchMake_loop dmp rest patches patch
                 (charCount1 + length diffText) (charCount2 + length diffText)
                 prepatchText postpatchText)"

text \<open>
  \<open>patchMake\<close> from a source text and a list of diffs: the body of the function once
  \<open>text1\<close> and \<open>diffs\<close> are set, which is what every accepted call shape reaches.
\<close>

definition patchMake_from :: "dmp_config \<Rightarrow> jsstring \<Rightarrow> Diff list \<Rightarrow> (error + patchObj list) option" where
  "patchMake_from dmp text1 ds =
     (if length ds = 0 then Some (Inr [])
      else patchMake_loop dmp ds [] new_patchObj 0 0 text1 text1)"

subsection \<open>patchSplitMax\<close>

text \<open>
  The inner loop of \<open>patchSplitMax\<close>, which fills one small patch from the head of the
  big patch's diffs. State: the big patch's remaining diffs, the small patch,
  \<open>start1\<close>, \<open>start2\<close> and \<open>empty\<close> (here \<open>emp\<close>).
\<close>

function patchSplitMax_fill ::
  "dmp_config \<Rightarrow> Diff list \<Rightarrow> patchObj \<Rightarrow> int \<Rightarrow> int \<Rightarrow> bool
     \<Rightarrow> Diff list \<times> patchObj \<times> int \<times> int \<times> bool" where
  "patchSplitMax_fill dmp big patch s1 s2 emp =
     (if big \<noteq> [] \<and> length1 patch < matchMaxBits dmp - patchMargin dmp then
        (let diffType = fst (hd big);
             diffText = snd (hd big)
         in if diffType = DIFF_INSERT then
              patchSplitMax_fill dmp (tl big)
                (patch\<lparr>length2 := length2 patch + length diffText,
                       diffs := diffs patch @ [hd big]\<rparr>)
                s1 (s2 + int (length diffText)) False
            else if diffType = DIFF_DELETE \<and> length (diffs patch) = 1 \<and>
                    fst (hd (diffs patch)) = DIFF_EQUAL \<and>
                    2 * matchMaxBits dmp < length diffText then
              patchSplitMax_fill dmp (tl big)
                (patch\<lparr>length1 := length1 patch + length diffText,
                       diffs := diffs patch @ [(diffType, diffText)]\<rparr>)
                (s1 + int (length diffText)) s2 False
            else
              (let diffText' =
                     substring diffText 0 (matchMaxBits dmp - length1 patch - patchMargin dmp)
               in patchSplitMax_fill dmp
                    (if diffText' = snd (hd big) then tl big
                     else (fst (hd big), substring_from (snd (hd big)) (length diffText')) # tl big)
                    (patch\<lparr>length1 := length1 patch + length diffText',
                           length2 := (if diffType = DIFF_EQUAL
                                       then length2 patch + length diffText' else length2 patch),
                           diffs := diffs patch @ [(diffType, diffText')]\<rparr>)
                    (s1 + int (length diffText'))
                    (if diffType = DIFF_EQUAL then s2 + int (length diffText') else s2)
                    (if diffType = DIFF_EQUAL then emp else False)))
      else (big, patch, s1, s2, emp))"
  by pat_completeness auto
termination
proof (relation "measure (\<lambda>(dmp, big, patch, s1, s2, emp).
          sum_list (map (\<lambda>d. Suc (length (snd d))) big))")
  show "wf (measure (\<lambda>(dmp, big, patch, s1, s2, emp).
          sum_list (map (\<lambda>d. Suc (length (snd d))) big)))" by simp
next
  fix dmp :: dmp_config and big :: "Diff list" and patch :: patchObj and s1 s2 :: int
    and emp :: bool and x xa
  assume "big \<noteq> [] \<and> length1 patch < matchMaxBits dmp - patchMargin dmp"
  then show "((dmp, tl big, patch\<lparr>length2 := length2 patch + length xa, diffs := diffs patch @ [hd big]\<rparr>,
              s1, s2 + int (length xa), False), dmp, big, patch, s1, s2, emp)
      \<in> measure (\<lambda>(dmp, big, patch, s1, s2, emp). sum_list (map (\<lambda>d. Suc (length (snd d))) big))"
    by (cases big) auto
next
  fix dmp :: dmp_config and big :: "Diff list" and patch :: patchObj and s1 s2 :: int
    and emp :: bool and x xa
  assume "big \<noteq> [] \<and> length1 patch < matchMaxBits dmp - patchMargin dmp"
  then show "((dmp, tl big, patch\<lparr>length1 := length1 patch + length xa, diffs := diffs patch @ [(x, xa)]\<rparr>,
              s1 + int (length xa), s2, False), dmp, big, patch, s1, s2, emp)
      \<in> measure (\<lambda>(dmp, big, patch, s1, s2, emp). sum_list (map (\<lambda>d. Suc (length (snd d))) big))"
    by (cases big) auto
next
  fix dmp :: dmp_config and big :: "Diff list" and patch :: patchObj and s1 s2 :: int
    and emp :: bool and x xa xb
  assume g: "big \<noteq> [] \<and> length1 patch < matchMaxBits dmp - patchMargin dmp"
    and xa: "xa = snd (hd big)"
    and xb: "xb = substring xa 0 (matchMaxBits dmp - length1 patch - patchMargin dmp)"
  from g obtain d rest where big: "big = d # rest" by (cases big) auto
  have k: "0 < matchMaxBits dmp - length1 patch - patchMargin dmp" using g by linarith
  have "xb \<noteq> snd d \<Longrightarrow> length (substring_from (snd d) (length xb)) < length (snd d)"
    using xa xb k big by (auto simp: substring_0 substring_from_def)
  then show "((dmp, if xb = snd (hd big) then tl big
                    else (fst (hd big), substring_from (snd (hd big)) (length xb)) # tl big,
              patch\<lparr>length1 := length1 patch + length xb,
                     length2 := if x = DIFF_EQUAL then length2 patch + length xb else length2 patch,
                     diffs := diffs patch @ [(x, xb)]\<rparr>,
              s1 + int (length xb), if x = DIFF_EQUAL then s2 + int (length xb) else s2,
              if x = DIFF_EQUAL then emp else False), dmp, big, patch, s1, s2, emp)
      \<in> measure (\<lambda>(dmp, big, patch, s1, s2, emp). sum_list (map (\<lambda>d. Suc (length (snd d))) big))"
    using big by auto
qed


declare patchSplitMax_fill.simps [simp del]

text \<open>
  The loop \<open>while (bigpatch.diffs.length !== 0)\<close>: one small patch per iteration,
  collected in \<open>out\<close> in the order in which the source splices them into the list.
  The loop does not return when an iteration consumes nothing (\<open>None\<close>).
\<close>

definition patchSplitMax_post :: "dmp_config \<Rightarrow> Diff list \<Rightarrow> patchObj \<Rightarrow> patchObj" where
  "patchSplitMax_post dmp big patch =
     (let postcontext = substring (diffText1 big) 0 (patchMargin dmp)
      in if postcontext \<noteq> [] then
           patch\<lparr>length1 := length1 patch + length postcontext,
                  length2 := length2 patch + length postcontext,
                  diffs := (if length (diffs patch) \<noteq> 0 \<and> fst (last (diffs patch)) = DIFF_EQUAL
                            then butlast (diffs patch) @
                                 [(fst (last (diffs patch)), snd (last (diffs patch)) @ postcontext)]
                            else diffs patch @ [(DIFF_EQUAL, postcontext)])\<rparr>
         else patch)"

definition patchSplitMax_start :: "int \<Rightarrow> int \<Rightarrow> jsstring \<Rightarrow> patchObj" where
  "patchSplitMax_start s1 s2 precontext =
     (let patch = new_patchObj\<lparr>start1 := Some (s1 - int (length precontext)),
                               start2 := Some (s2 - int (length precontext))\<rparr>
      in if precontext \<noteq> [] then
           patch\<lparr>length1 := length precontext, length2 := length precontext,
                  diffs := diffs patch @ [(DIFF_EQUAL, precontext)]\<rparr>
         else patch)"

partial_function (option) patchSplitMax_big ::
  "dmp_config \<Rightarrow> Diff list \<Rightarrow> int \<Rightarrow> int \<Rightarrow> jsstring \<Rightarrow> patchObj list \<Rightarrow> patchObj list option" where
  "patchSplitMax_big dmp big s1 s2 precontext out =
     (if length big \<noteq> 0 then
        (case patchSplitMax_fill dmp big (patchSplitMax_start s1 s2 precontext) s1 s2 True of
           (big', patch, s1', s2', emp) \<Rightarrow>
             patchSplitMax_big dmp big' s1' s2'
               (substring_from (diffText2 (diffs patch))
                  (length (diffText2 (diffs patch)) - patchMargin dmp))
               (if \<not> emp then out @ [patchSplitMax_post dmp big' patch] else out))
      else Some out)"

declare patchSplitMax_big.simps [code]

text \<open>
  \<open>patchSplitMax\<close>: the list after the call. A patch with \<open>length1 \<le> matchMaxBits\<close>
  stays; a longer one is removed and the small patches made from it take its place.
\<close>

fun patchSplitMax :: "dmp_config \<Rightarrow> patchObj list \<Rightarrow> patchObj list option" where
  "patchSplitMax dmp [] = Some []"
| "patchSplitMax dmp (p # patches) =
     (if length1 p \<le> matchMaxBits dmp then
        (case patchSplitMax dmp patches of None \<Rightarrow> None | Some r \<Rightarrow> Some (p # r))
      else
        (case patchSplitMax_big dmp (diffs p) (num (start1 p)) (num (start2 p)) [] [] of
           None \<Rightarrow> None
         | Some small \<Rightarrow>
             (case patchSplitMax dmp patches of None \<Rightarrow> None | Some r \<Rightarrow> Some (small @ r))))"

subsection \<open>patchAddPadding\<close>

definition nullPadding :: "dmp_config \<Rightarrow> jsstring" where
  "nullPadding dmp = map of_nat [1..<patchMargin dmp + 1]"

definition patchAddPadding_first :: "dmp_config \<Rightarrow> patchObj \<Rightarrow> patchObj" where
  "patchAddPadding_first dmp patch =
     (let paddingLength = patchMargin dmp; ds = diffs patch
      in if length ds = 0 \<or> fst (hd ds) \<noteq> DIFF_EQUAL then
           patch\<lparr>diffs := (DIFF_EQUAL, nullPadding dmp) # ds,
                  start1 := Some (num (start1 patch) - int paddingLength),
                  start2 := Some (num (start2 patch) - int paddingLength),
                  length1 := length1 patch + paddingLength,
                  length2 := length2 patch + paddingLength\<rparr>
         else if length (snd (hd ds)) < paddingLength then
           (let extraLength = paddingLength - length (snd (hd ds))
            in patch\<lparr>diffs := (fst (hd ds),
                                  substring_from (nullPadding dmp) (length (snd (hd ds))) @ snd (hd ds))
                                 # tl ds,
                      start1 := Some (num (start1 patch) - int extraLength),
                      start2 := Some (num (start2 patch) - int extraLength),
                      length1 := length1 patch + extraLength,
                      length2 := length2 patch + extraLength\<rparr>)
         else patch)"

definition patchAddPadding_last :: "dmp_config \<Rightarrow> patchObj \<Rightarrow> patchObj" where
  "patchAddPadding_last dmp patch =
     (let paddingLength = patchMargin dmp; ds = diffs patch
      in if length ds = 0 \<or> fst (last ds) \<noteq> DIFF_EQUAL then
           patch\<lparr>diffs := ds @ [(DIFF_EQUAL, nullPadding dmp)],
                  length1 := length1 patch + paddingLength,
                  length2 := length2 patch + paddingLength\<rparr>
         else if length (snd (last ds)) < paddingLength then
           (let extraLength = paddingLength - length (snd (last ds))
            in patch\<lparr>diffs := butlast ds @
                                 [(fst (last ds),
                                   snd (last ds) @ substring (nullPadding dmp) 0 extraLength)],
                      length1 := length1 patch + extraLength,
                      length2 := length2 patch + extraLength\<rparr>)
         else patch)"

text \<open>
  \<open>patchAddPadding\<close>: the list after the call and the padding string. On an empty list
  \<open>patches[0].diffs\<close> is a TypeError.
\<close>

definition patchAddPadding :: "dmp_config \<Rightarrow> patchObj list \<Rightarrow> error + (patchObj list \<times> jsstring)" where
  "patchAddPadding dmp patches =
     (let paddingLength = patchMargin dmp;
          patches1 = map (\<lambda>p. p\<lparr>start1 := Some (num (start1 p) + int paddingLength),
                                   start2 := Some (num (start2 p) + int paddingLength)\<rparr>) patches
      in if patches1 = [] then Inl TypeError
         else
           (let patches2 = patches1[0 := patchAddPadding_first dmp (patches1 ! 0)];
                n = length patches2 - 1;
                patches3 = patches2[n := patchAddPadding_last dmp (patches2 ! n)]
            in Inr (patches3, nullPadding dmp)))"


section \<open>The length invariant of patches\<close>

lemma patch_lengths_ok_new: "patch_lengths_ok new_patchObj"
  by (simp add: patch_lengths_ok_def new_patchObj_def)

lemma patchAddContext_lengths:
  assumes "patch_lengths_ok patch" and "patchAddContext dmp patch tx = Some (Inr p)"
  shows "patch_lengths_ok p"
proof (cases "length tx = 0")
  case True
  then show ?thesis using assms by (simp add: patchAddContext_def)
next
  case False
  then obtain s2 padding0 where s2: "start2 patch = Some s2"
    and l: "patchAddContext_loop dmp tx s2 (length1 patch) 0 = Some padding0"
    using assms(2) by (auto simp: patchAddContext_def split: option.splits)
  define padding where "padding = padding0 + patchMargin dmp"
  define prefix where "prefix = substring_int tx (s2 - int padding) s2"
  define suffix where "suffix = substring_int tx (s2 + int (length1 patch))
                            (s2 + int (length1 patch) + int padding)"
  define ds1 where "ds1 = (if prefix \<noteq> [] then (DIFF_EQUAL, prefix) # diffs patch else diffs patch)"
  define ds2 where "ds2 = (if suffix \<noteq> [] then ds1 @ [(DIFF_EQUAL, suffix)] else ds1)"
  have p: "p = \<lparr> diffs = ds2,
                 start1 = Some (num (start1 patch) - int (length prefix)),
                 start2 = Some (s2 - int (length prefix)),
                 length1 = length1 patch + (length prefix + length suffix),
                 length2 = length2 patch + (length prefix + length suffix) \<rparr>"
    using assms(2) False s2 l
    unfolding patchAddContext_def Let_def ds2_def ds1_def suffix_def prefix_def padding_def
    by simp
  show ?thesis using assms(1) unfolding p patch_lengths_ok_def ds2_def ds1_def by simp
qed

lemma patch_lengths_ok_starts [simp]:
  "patch_lengths_ok (p\<lparr>start1 := a, start2 := b\<rparr>) = patch_lengths_ok p"
  by (simp add: patch_lengths_ok_def)

lemma patch_lengths_ok_insert:
  "patch_lengths_ok p \<Longrightarrow> fst d = DIFF_INSERT \<Longrightarrow>
   patch_lengths_ok (p\<lparr>diffs := diffs p @ [d], length2 := length2 p + length (snd d)\<rparr>)"
  by (simp add: patch_lengths_ok_def)

lemma patch_lengths_ok_delete:
  "patch_lengths_ok p \<Longrightarrow> fst d = DIFF_DELETE \<Longrightarrow>
   patch_lengths_ok (p\<lparr>length1 := length1 p + length (snd d), diffs := diffs p @ [d]\<rparr>)"
  by (simp add: patch_lengths_ok_def)

lemma patch_lengths_ok_equal:
  "patch_lengths_ok p \<Longrightarrow> fst d = DIFF_EQUAL \<Longrightarrow>
   patch_lengths_ok (p\<lparr>diffs := diffs p @ [d], length1 := length1 p + length (snd d),
                         length2 := length2 p + length (snd d)\<rparr>)"
  by (simp add: patch_lengths_ok_def)

lemma patchMake_loop_lengths:
  "\<forall>p\<in>set patches. patch_lengths_ok p \<Longrightarrow> patch_lengths_ok patch \<Longrightarrow>
   patchMake_loop dmp ds patches patch c1 c2 pre post = Some (Inr r) \<Longrightarrow>
   \<forall>p\<in>set r. patch_lengths_ok p"
proof (induction ds arbitrary: patches patch c1 c2 pre post)
  case Nil
  then show ?case
    by (auto split: if_splits option.splits sum.splits dest: patchAddContext_lengths)
next
  case (Cons d rest)
  define patch1 where "patch1 = (if diffs patch = [] \<and> fst d \<noteq> DIFF_EQUAL
      then patch\<lparr>start1 := Some (int c1), start2 := Some (int c2)\<rparr> else patch)"
  have ok1: "patch_lengths_ok patch1"
    using Cons.prems(2) by (simp add: patch1_def)
  have u: "patchMake_loop dmp (d # rest) patches patch c1 c2 pre post =
     (case fst d of
           DIFF_INSERT \<Rightarrow>
             patchMake_loop dmp rest patches
               (patch1\<lparr>diffs := diffs patch1 @ [d], length2 := length2 patch1 + length (snd d)\<rparr>)
               c1 (c2 + length (snd d)) pre
               (substring post 0 c2 @ snd d @ substring_from post c2)
         | DIFF_DELETE \<Rightarrow>
             patchMake_loop dmp rest patches
               (patch1\<lparr>length1 := length1 patch1 + length (snd d), diffs := diffs patch1 @ [d]\<rparr>)
               (c1 + length (snd d)) c2 pre
               (substring post 0 c2 @ substring_from post (c2 + length (snd d)))
         | DIFF_EQUAL \<Rightarrow>
             if length (snd d) \<le> 2 * patchMargin dmp \<and> diffs patch1 \<noteq> [] \<and> rest \<noteq> [] then
               patchMake_loop dmp rest patches
                 (patch1\<lparr>diffs := diffs patch1 @ [d],
                        length1 := length1 patch1 + length (snd d),
                        length2 := length2 patch1 + length (snd d)\<rparr>)
                 (c1 + length (snd d)) (c2 + length (snd d)) pre post
             else if 2 * patchMargin dmp \<le> length (snd d) \<and> diffs patch1 \<noteq> [] then
               (case patchAddContext dmp patch1 pre of
                  None \<Rightarrow> None
                | Some (Inl e) \<Rightarrow> Some (Inl e)
                | Some (Inr p) \<Rightarrow>
                    patchMake_loop dmp rest (patches @ [p]) new_patchObj
                      (c2 + length (snd d)) (c2 + length (snd d)) post post)
             else
               patchMake_loop dmp rest patches patch1
                 (c1 + length (snd d)) (c2 + length (snd d)) pre post)"
    unfolding patch1_def patchMake_loop.simps Let_def ..
  show ?case
  proof (cases "fst d")
    case DIFF_INSERT
    from Cons.prems(3)[unfolded u] DIFF_INSERT
    have rec: "patchMake_loop dmp rest patches
               (patch1\<lparr>diffs := diffs patch1 @ [d], length2 := length2 patch1 + length (snd d)\<rparr>)
               c1 (c2 + length (snd d)) pre
               (substring post 0 c2 @ snd d @ substring_from post c2) = Some (Inr r)"
      by simp
    from Cons.IH[OF Cons.prems(1) patch_lengths_ok_insert[OF ok1 DIFF_INSERT] rec] show ?thesis .
  next
    case DIFF_DELETE
    from Cons.prems(3)[unfolded u] DIFF_DELETE
    have rec: "patchMake_loop dmp rest patches
               (patch1\<lparr>length1 := length1 patch1 + length (snd d), diffs := diffs patch1 @ [d]\<rparr>)
               (c1 + length (snd d)) c2 pre
               (substring post 0 c2 @ substring_from post (c2 + length (snd d))) = Some (Inr r)"
      by simp
    from Cons.IH[OF Cons.prems(1) patch_lengths_ok_delete[OF ok1 DIFF_DELETE] rec] show ?thesis .
  next
    case DIFF_EQUAL
    consider (a) "length (snd d) \<le> 2 * patchMargin dmp \<and> diffs patch1 \<noteq> [] \<and> rest \<noteq> []"
      | (b) "\<not> (length (snd d) \<le> 2 * patchMargin dmp \<and> diffs patch1 \<noteq> [] \<and> rest \<noteq> [])"
            "2 * patchMargin dmp \<le> length (snd d) \<and> diffs patch1 \<noteq> []"
      | (c) "\<not> (length (snd d) \<le> 2 * patchMargin dmp \<and> diffs patch1 \<noteq> [] \<and> rest \<noteq> [])"
            "\<not> (2 * patchMargin dmp \<le> length (snd d) \<and> diffs patch1 \<noteq> [])"
      by blast
    then show ?thesis
    proof cases
      case a
      from Cons.prems(3)[unfolded u] DIFF_EQUAL
      have rec: "patchMake_loop dmp rest patches (patch1\<lparr>diffs := diffs patch1 @ [d],
              length1 := length1 patch1 + length (snd d),
              length2 := length2 patch1 + length (snd d)\<rparr>)
            (c1 + length (snd d)) (c2 + length (snd d)) pre post = Some (Inr r)"
        by (simp only: op.case if_P[OF a])
      from Cons.IH[OF Cons.prems(1) patch_lengths_ok_equal[OF ok1 DIFF_EQUAL] rec] show ?thesis .
    next
      case b
      from Cons.prems(3)[unfolded u] DIFF_EQUAL
      have "(case patchAddContext dmp patch1 pre of
                  None \<Rightarrow> None
                | Some (Inl e) \<Rightarrow> Some (Inl e)
                | Some (Inr p) \<Rightarrow>
                    patchMake_loop dmp rest (patches @ [p]) new_patchObj
                      (c2 + length (snd d)) (c2 + length (snd d)) post post) = Some (Inr r)"
        by (simp only: op.case if_not_P[OF b(1)] if_P[OF b(2)])
      then obtain p where ac: "patchAddContext dmp patch1 pre = Some (Inr p)"
        and rec: "patchMake_loop dmp rest (patches @ [p]) new_patchObj
            (c2 + length (snd d)) (c2 + length (snd d)) post post = Some (Inr r)"
        by (auto split: option.splits sum.splits)
      have "\<forall>q\<in>set (patches @ [p]). patch_lengths_ok q"
        using Cons.prems(1) patchAddContext_lengths[OF ok1 ac] by auto
      from Cons.IH[OF this patch_lengths_ok_new rec] show ?thesis .
    next
      case c
      from Cons.prems(3)[unfolded u] DIFF_EQUAL
      have rec: "patchMake_loop dmp rest patches patch1
            (c1 + length (snd d)) (c2 + length (snd d)) pre post = Some (Inr r)"
        by (simp only: op.case if_not_P[OF c(1)] if_not_P[OF c(2)])
      from Cons.IH[OF Cons.prems(1) ok1 rec] show ?thesis .
    qed
  qed
qed

lemma patchMake_from_lengths:
  "patchMake_from dmp text1 ds = Some (Inr r) \<Longrightarrow> \<forall>p\<in>set r. patch_lengths_ok p"
  unfolding patchMake_from_def
  using patchMake_loop_lengths[of "[]" new_patchObj dmp ds 0 0 text1 text1 r]
  by (auto simp: patch_lengths_ok_new split: if_splits)

lemma patchSplitMax_fill_stop:
  "\<not> (big \<noteq> [] \<and> length1 patch < matchMaxBits dmp - patchMargin dmp) \<Longrightarrow>
   patchSplitMax_fill dmp big patch s1 s2 emp = (big, patch, s1, s2, emp)"
  by (subst patchSplitMax_fill.simps) (rule if_not_P)

lemma patchSplitMax_fill_insert:
  assumes "big \<noteq> [] \<and> length1 patch < matchMaxBits dmp - patchMargin dmp"
    and "fst (hd big) = DIFF_INSERT"
  shows "patchSplitMax_fill dmp big patch s1 s2 emp =
         patchSplitMax_fill dmp (tl big)
           (patch\<lparr>length2 := length2 patch + length (snd (hd big)),
                  diffs := diffs patch @ [hd big]\<rparr>)
           s1 (s2 + int (length (snd (hd big)))) False"
  by (subst patchSplitMax_fill.simps) (simp only: if_P[OF assms(1)] Let_def if_P[OF assms(2)])

lemma patchSplitMax_fill_monster:
  assumes "big \<noteq> [] \<and> length1 patch < matchMaxBits dmp - patchMargin dmp"
    and "fst (hd big) \<noteq> DIFF_INSERT"
    and "fst (hd big) = DIFF_DELETE \<and> length (diffs patch) = 1 \<and>
         fst (hd (diffs patch)) = DIFF_EQUAL \<and> 2 * matchMaxBits dmp < length (snd (hd big))"
  shows "patchSplitMax_fill dmp big patch s1 s2 emp =
         patchSplitMax_fill dmp (tl big)
           (patch\<lparr>length1 := length1 patch + length (snd (hd big)),
                  diffs := diffs patch @ [(fst (hd big), snd (hd big))]\<rparr>)
           (s1 + int (length (snd (hd big)))) s2 False"
  by (subst patchSplitMax_fill.simps)
     (simp only: if_P[OF assms(1)] Let_def if_not_P[OF assms(2)] if_P[OF assms(3)])

lemma patchSplitMax_fill_take:
  assumes "big \<noteq> [] \<and> length1 patch < matchMaxBits dmp - patchMargin dmp"
    and "fst (hd big) \<noteq> DIFF_INSERT"
    and "\<not> (fst (hd big) = DIFF_DELETE \<and> length (diffs patch) = 1 \<and>
         fst (hd (diffs patch)) = DIFF_EQUAL \<and> 2 * matchMaxBits dmp < length (snd (hd big)))"
    and "t = substring (snd (hd big)) 0 (matchMaxBits dmp - length1 patch - patchMargin dmp)"
  shows "patchSplitMax_fill dmp big patch s1 s2 emp =
         patchSplitMax_fill dmp
           (if t = snd (hd big) then tl big
            else (fst (hd big), substring_from (snd (hd big)) (length t)) # tl big)
           (patch\<lparr>length1 := length1 patch + length t,
                  length2 := (if fst (hd big) = DIFF_EQUAL
                              then length2 patch + length t else length2 patch),
                  diffs := diffs patch @ [(fst (hd big), t)]\<rparr>)
           (s1 + int (length t))
           (if fst (hd big) = DIFF_EQUAL then s2 + int (length t) else s2)
           (if fst (hd big) = DIFF_EQUAL then emp else False)"
  unfolding assms(4)
  by (subst patchSplitMax_fill.simps)
     (simp only: if_P[OF assms(1)] Let_def if_not_P[OF assms(2)] if_not_P[OF assms(3)])

lemma patchSplitMax_fill_lengths:
  "patch_lengths_ok patch \<Longrightarrow>
   patchSplitMax_fill dmp big patch s1 s2 emp = (big', patch', s1', s2', emp') \<Longrightarrow>
   patch_lengths_ok patch'"
proof (induction dmp big patch s1 s2 emp rule: patchSplitMax_fill.induct)
  case (1 dmp big patch s1 s2 emp)
  show ?case
  proof (cases "big \<noteq> [] \<and> length1 patch < matchMaxBits dmp - patchMargin dmp")
    case False
    from 1(5)[unfolded patchSplitMax_fill_stop[OF False]] 1(4) show ?thesis by simp
  next
    case g: True
    show ?thesis
    proof (cases "fst (hd big) = DIFF_INSERT")
      case True
      have ok: "patch_lengths_ok (patch\<lparr>length2 := length2 patch + length (snd (hd big)),
                  diffs := diffs patch @ [hd big]\<rparr>)"
        using 1(4) True by (simp add: patch_lengths_ok_def)
      show ?thesis
        by (rule 1(1)[OF g refl refl True ok 1(5)[unfolded patchSplitMax_fill_insert[OF g True]]])
    next
      case ni: False
      let ?c = "fst (hd big) = DIFF_DELETE \<and> length (diffs patch) = 1 \<and>
         fst (hd (diffs patch)) = DIFF_EQUAL \<and> 2 * matchMaxBits dmp < length (snd (hd big))"
      show ?thesis
      proof (cases ?c)
        case True
        have ok: "patch_lengths_ok (patch\<lparr>length1 := length1 patch + length (snd (hd big)),
                  diffs := diffs patch @ [(fst (hd big), snd (hd big))]\<rparr>)"
          using 1(4) True by (simp add: patch_lengths_ok_def)
        show ?thesis
          by (rule 1(2)[OF g refl refl ni True ok
                1(5)[unfolded patchSplitMax_fill_monster[OF g ni True]]])
      next
        case nl: False
        define t where "t = substring (snd (hd big)) 0 (matchMaxBits dmp - length1 patch - patchMargin dmp)"
        have ok: "patch_lengths_ok (patch\<lparr>length1 := length1 patch + length t,
                  length2 := (if fst (hd big) = DIFF_EQUAL
                              then length2 patch + length t else length2 patch),
                  diffs := diffs patch @ [(fst (hd big), t)]\<rparr>)"
          using 1(4) ni by (cases "fst (hd big)") (simp_all add: patch_lengths_ok_def)
        show ?thesis
          by (rule 1(3)[OF g refl refl ni nl t_def ok
                1(5)[unfolded patchSplitMax_fill_take[OF g ni nl t_def]]])
      qed
    qed
  qed
qed



lemma patchSplitMax_start_lengths: "patch_lengths_ok (patchSplitMax_start s1 s2 precontext)"
  by (simp add: patchSplitMax_start_def patch_lengths_ok_def new_patchObj_def Let_def)

lemma sum_list_butlast_last:
  "ds \<noteq> [] \<Longrightarrow> sum_list (map f ds) = sum_list (map f (butlast ds)) + (f (last ds) :: nat)"
  by (induction ds) auto

lemma patchSplitMax_post_lengths:
  assumes "patch_lengths_ok patch"
  shows "patch_lengths_ok (patchSplitMax_post dmp big patch)"
proof -
  define pc where "pc = substring (diffText1 big) 0 (patchMargin dmp)"
  show ?thesis
  proof (cases "pc = []")
    case True
    then show ?thesis using assms by (simp add: patchSplitMax_post_def pc_def[symmetric])
  next
    case ne: False
    show ?thesis
    proof (cases "length (diffs patch) \<noteq> 0 \<and> fst (last (diffs patch)) = DIFF_EQUAL")
      case True
      then have n: "diffs patch \<noteq> []" by auto
      show ?thesis using assms True ne
        unfolding patchSplitMax_post_def pc_def[symmetric] Let_def patch_lengths_ok_def
        by (simp add: sum_list_butlast_last[OF n])
    next
      case False
      then show ?thesis using assms ne
        unfolding patchSplitMax_post_def pc_def[symmetric] Let_def patch_lengths_ok_def
        by auto
    qed
  qed
qed


lemma patchSplitMax_big_lengths_aux:
  assumes "patchSplitMax_big dmp big s1 s2 precontext out = Some r"
  shows "(\<forall>p\<in>set out. patch_lengths_ok p) \<longrightarrow> (\<forall>p\<in>set r. patch_lengths_ok p)"
  using assms
proof (induction rule: patchSplitMax_big.raw_induct[rotated 1, consumes 1, case_names step])
  case (step f dmp big s1 s2 precontext out r)
  show ?case
  proof (cases "length big \<noteq> 0")
    case False
    with step(2) show ?thesis by simp
  next
    case True
    obtain big' patch s1' s2' emp where
      fl: "patchSplitMax_fill dmp big (patchSplitMax_start s1 s2 precontext) s1 s2 True
            = (big', patch, s1', s2', emp)"
      by (metis prod_cases5)
    have ok: "patch_lengths_ok patch"
      by (rule patchSplitMax_fill_lengths[OF patchSplitMax_start_lengths fl])
    let ?out = "if \<not> emp then out @ [patchSplitMax_post dmp big' patch] else out"
    from step(2) have "(case patchSplitMax_fill dmp big (patchSplitMax_start s1 s2 precontext) s1 s2 True of
           (big', patch, s1', s2', emp) \<Rightarrow>
             f dmp big' s1' s2'
               (substring_from (diffText2 (diffs patch))
                  (length (diffText2 (diffs patch)) - patchMargin dmp))
               (if \<not> emp then out @ [patchSplitMax_post dmp big' patch] else out)) = Some r"
      by (simp only: if_P[OF True])
    then have "f dmp big' s1' s2'
            (substring_from (diffText2 (diffs patch)) (length (diffText2 (diffs patch)) - patchMargin dmp))
            ?out = Some r"
      unfolding fl prod.case .
    from step(1)[OF this]
    have imp: "(\<forall>p\<in>set ?out. patch_lengths_ok p) \<longrightarrow> (\<forall>p\<in>set r. patch_lengths_ok p)" .
    show ?thesis
    proof
      assume o: "\<forall>p\<in>set out. patch_lengths_ok p"
      have "\<forall>p\<in>set ?out. patch_lengths_ok p"
      proof (cases emp)
        case True
        with o show ?thesis by simp
      next
        case False
        with o patchSplitMax_post_lengths[OF ok, of dmp big'] show ?thesis by simp
      qed
      with imp show "\<forall>p\<in>set r. patch_lengths_ok p" by blast
    qed
  qed
qed

lemma patchSplitMax_big_lengths:
  "patchSplitMax_big dmp big s1 s2 precontext out = Some r \<Longrightarrow>
   \<forall>p\<in>set out. patch_lengths_ok p \<Longrightarrow> \<forall>p\<in>set r. patch_lengths_ok p"
  using patchSplitMax_big_lengths_aux by blast

lemma patchSplitMax_lengths:
  "patchSplitMax dmp patches = Some r \<Longrightarrow> \<forall>p\<in>set patches. patch_lengths_ok p \<Longrightarrow>
   \<forall>p\<in>set r. patch_lengths_ok p"
proof (induction patches arbitrary: r)
  case Nil
  then show ?case by simp
next
  case (Cons p patches)
  show ?case
  proof (cases "length1 p \<le> matchMaxBits dmp")
    case True
    then obtain r' where r': "patchSplitMax dmp patches = Some r'" and r: "r = p # r'"
      using Cons.prems(1) by (auto split: option.splits)
    from Cons.IH[OF r'] Cons.prems(2) r show ?thesis by simp
  next
    case False
    then obtain small r' where
      s: "patchSplitMax_big dmp (diffs p) (num (start1 p)) (num (start2 p)) [] [] = Some small"
      and r': "patchSplitMax dmp patches = Some r'" and r: "r = small @ r'"
      using Cons.prems(1) by (auto split: option.splits)
    from patchSplitMax_big_lengths[OF s] have "\<forall>q\<in>set small. patch_lengths_ok q" by simp
    with Cons.IH[OF r'] Cons.prems(2) r show ?thesis by auto
  qed
qed

lemma length_nullPadding [simp]: "length (nullPadding dmp) = patchMargin dmp"
  by (simp add: nullPadding_def)

lemma patchAddPadding_first_lengths:
  assumes "patch_lengths_ok patch"
  shows "patch_lengths_ok (patchAddPadding_first dmp patch)"
proof (cases "length (diffs patch) = 0 \<or> fst (hd (diffs patch)) \<noteq> DIFF_EQUAL")
  case True
  have "patchAddPadding_first dmp patch =
        patch\<lparr>diffs := (DIFF_EQUAL, nullPadding dmp) # diffs patch,
              start1 := Some (num (start1 patch) - int (patchMargin dmp)),
              start2 := Some (num (start2 patch) - int (patchMargin dmp)),
              length1 := length1 patch + patchMargin dmp,
              length2 := length2 patch + patchMargin dmp\<rparr>"
    unfolding patchAddPadding_first_def Let_def by (simp only: if_P[OF True])
  then show ?thesis using assms by (simp add: patch_lengths_ok_def)
next
  case False
  then obtain d rest where d: "diffs patch = d # rest" "fst d = DIFF_EQUAL"
    by (cases "diffs patch") auto
  show ?thesis
  proof (cases "length (snd (hd (diffs patch))) < patchMargin dmp")
    case True
    have "patchAddPadding_first dmp patch =
           patch\<lparr>diffs := (fst (hd (diffs patch)),
                      substring_from (nullPadding dmp) (length (snd (hd (diffs patch)))) @ snd (hd (diffs patch)))
                                 # tl (diffs patch),
                      start1 := Some (num (start1 patch) - int (patchMargin dmp - length (snd (hd (diffs patch))))),
                      start2 := Some (num (start2 patch) - int (patchMargin dmp - length (snd (hd (diffs patch))))),
                      length1 := length1 patch + (patchMargin dmp - length (snd (hd (diffs patch)))),
                      length2 := length2 patch + (patchMargin dmp - length (snd (hd (diffs patch))))\<rparr>"
      unfolding patchAddPadding_first_def Let_def
      by (simp only: if_not_P[OF False] if_P[OF True])
    then show ?thesis using assms d True
      by (simp add: patch_lengths_ok_def substring_from_def)
  next
    case nt: False
    have "patchAddPadding_first dmp patch = patch"
      unfolding patchAddPadding_first_def Let_def
      by (simp only: if_not_P[OF False] if_not_P[OF nt])
    then show ?thesis using assms by simp
  qed
qed

lemma patchAddPadding_last_lengths:
  assumes "patch_lengths_ok patch"
  shows "patch_lengths_ok (patchAddPadding_last dmp patch)"
proof (cases "length (diffs patch) = 0 \<or> fst (last (diffs patch)) \<noteq> DIFF_EQUAL")
  case True
  have "patchAddPadding_last dmp patch =
        patch\<lparr>diffs := diffs patch @ [(DIFF_EQUAL, nullPadding dmp)],
              length1 := length1 patch + patchMargin dmp,
              length2 := length2 patch + patchMargin dmp\<rparr>"
    unfolding patchAddPadding_last_def Let_def by (simp only: if_P[OF True])
  then show ?thesis using assms by (simp add: patch_lengths_ok_def)
next
  case False
  then have n: "diffs patch \<noteq> []" and e: "fst (last (diffs patch)) = DIFF_EQUAL" by auto
  show ?thesis
  proof (cases "length (snd (last (diffs patch))) < patchMargin dmp")
    case True
    have "patchAddPadding_last dmp patch =
           patch\<lparr>diffs := butlast (diffs patch) @
                                 [(fst (last (diffs patch)),
                                   snd (last (diffs patch)) @
                                   substring (nullPadding dmp) 0 (patchMargin dmp - length (snd (last (diffs patch)))))],
                      length1 := length1 patch + (patchMargin dmp - length (snd (last (diffs patch)))),
                      length2 := length2 patch + (patchMargin dmp - length (snd (last (diffs patch))))\<rparr>"
      unfolding patchAddPadding_last_def Let_def
      by (simp only: if_not_P[OF False] if_P[OF True])
    then show ?thesis using assms e True
      by (simp add: patch_lengths_ok_def substring_0 sum_list_butlast_last[OF n])
  next
    case nt: False
    have "patchAddPadding_last dmp patch = patch"
      unfolding patchAddPadding_last_def Let_def
      by (simp only: if_not_P[OF False] if_not_P[OF nt])
    then show ?thesis using assms by simp
  qed
qed


lemma patchAddPadding_lengths:
  assumes "patchAddPadding dmp patches = Inr (r, padding)"
    and "\<forall>p\<in>set patches. patch_lengths_ok p"
  shows "\<forall>p\<in>set r. patch_lengths_ok p"
proof -
  define patches1 where "patches1 = map (\<lambda>p. p\<lparr>start1 := Some (num (start1 p) + int (patchMargin dmp)),
                                   start2 := Some (num (start2 p) + int (patchMargin dmp))\<rparr>) patches"
  define patches2 where "patches2 = patches1[0 := patchAddPadding_first dmp (patches1 ! 0)]"
  define n where "n = length patches2 - 1"
  have ne: "patches1 \<noteq> []" and r: "r = patches2[n := patchAddPadding_last dmp (patches2 ! n)]"
    using assms(1)
    unfolding patchAddPadding_def Let_def n_def patches2_def patches1_def
    by (auto split: if_splits)
  have 1: "\<forall>p\<in>set patches1. patch_lengths_ok p"
    using assms(2) by (auto simp: patches1_def)
  have 2: "\<forall>p\<in>set patches2. patch_lengths_ok p"
  proof
    fix p assume "p \<in> set patches2"
    then have "p \<in> insert (patchAddPadding_first dmp (patches1 ! 0)) (set patches1)"
      unfolding patches2_def using set_update_subset_insert by fastforce
    moreover have "patch_lengths_ok (patches1 ! 0)" using 1 ne by simp
    ultimately show "patch_lengths_ok p" using 1 patchAddPadding_first_lengths by auto
  qed
  have l2: "patches2 \<noteq> []" using ne by (simp add: patches2_def)
  show ?thesis
  proof
    fix p assume "p \<in> set r"
    then have "p \<in> insert (patchAddPadding_last dmp (patches2 ! n)) (set patches2)"
      unfolding r using set_update_subset_insert by fastforce
    moreover have "patch_lengths_ok (patches2 ! n)" using 2 l2 by (simp add: n_def)
    ultimately show "patch_lengths_ok p" using 2 patchAddPadding_last_lengths by auto
  qed
qed


section \<open>How long a patch can be after patchSplitMax\<close>

text \<open>
  The shape of a patch that the large-deletion branch of \<open>patchSplitMax\<close> lets through:
  an equality, a deletion of more than \<open>2 * matchMaxBits\<close> characters and, possibly, a
  closing equality.
\<close>

definition monster_delete :: "dmp_config \<Rightarrow> patchObj \<Rightarrow> bool" where
  "monster_delete dmp p =
     (case diffs p of
        d0 # d1 # rest \<Rightarrow>
          fst d0 = DIFF_EQUAL \<and> fst d1 = DIFF_DELETE \<and> 2 * matchMaxBits dmp < length (snd d1) \<and>
          (rest = [] \<or> (length rest = 1 \<and> fst (hd rest) = DIFF_EQUAL))
      | _ \<Rightarrow> False)"

definition fill_bound :: "dmp_config \<Rightarrow> patchObj \<Rightarrow> bool \<Rightarrow> bool" where
  "fill_bound dmp patch emp =
     ((length (diffs patch) = 2 \<and> monster_delete dmp patch) \<or>
      (\<not> emp \<longrightarrow> length1 patch + patchMargin dmp \<le> matchMaxBits dmp))"

lemma patchSplitMax_fill_bound:
  "fill_bound dmp patch emp \<Longrightarrow>
   patchSplitMax_fill dmp big patch s1 s2 emp = (big', patch', s1', s2', emp') \<Longrightarrow>
   fill_bound dmp patch' emp'"
proof (induction dmp big patch s1 s2 emp rule: patchSplitMax_fill.induct)
  case (1 dmp big patch s1 s2 emp)
  show ?case
  proof (cases "big \<noteq> [] \<and> length1 patch < matchMaxBits dmp - patchMargin dmp")
    case False
    from 1(5)[unfolded patchSplitMax_fill_stop[OF False]] 1(4) show ?thesis by simp
  next
    case g: True
    then have gl: "length1 patch + patchMargin dmp \<le> matchMaxBits dmp" by linarith
    show ?thesis
    proof (cases "fst (hd big) = DIFF_INSERT")
      case True
      have ok: "fill_bound dmp (patch\<lparr>length2 := length2 patch + length (snd (hd big)),
                  diffs := diffs patch @ [hd big]\<rparr>) False"
        using gl by (simp add: fill_bound_def)
      show ?thesis
        by (rule 1(1)[OF g refl refl True ok 1(5)[unfolded patchSplitMax_fill_insert[OF g True]]])
    next
      case ni: False
      let ?c = "fst (hd big) = DIFF_DELETE \<and> length (diffs patch) = 1 \<and>
         fst (hd (diffs patch)) = DIFF_EQUAL \<and> 2 * matchMaxBits dmp < length (snd (hd big))"
      show ?thesis
      proof (cases ?c)
        case True
        then obtain d0 where d0: "diffs patch = [d0]" "fst d0 = DIFF_EQUAL"
          by (cases "diffs patch") auto
        have ok: "fill_bound dmp (patch\<lparr>length1 := length1 patch + length (snd (hd big)),
                  diffs := diffs patch @ [(fst (hd big), snd (hd big))]\<rparr>) False"
          using True d0 by (simp add: fill_bound_def monster_delete_def)
        show ?thesis
          by (rule 1(2)[OF g refl refl ni True ok
                1(5)[unfolded patchSplitMax_fill_monster[OF g ni True]]])
      next
        case nl: False
        define t where "t = substring (snd (hd big)) 0 (matchMaxBits dmp - length1 patch - patchMargin dmp)"
        have "length t \<le> matchMaxBits dmp - length1 patch - patchMargin dmp"
          by (simp add: t_def substring_0)
        then have "length1 patch + length t + patchMargin dmp \<le> matchMaxBits dmp"
          using gl by linarith
        then have ok: "fill_bound dmp (patch\<lparr>length1 := length1 patch + length t,
                  length2 := (if fst (hd big) = DIFF_EQUAL
                              then length2 patch + length t else length2 patch),
                  diffs := diffs patch @ [(fst (hd big), t)]\<rparr>)
                  (if fst (hd big) = DIFF_EQUAL then emp else False)"
          by (simp add: fill_bound_def)
        show ?thesis
          by (rule 1(3)[OF g refl refl ni nl t_def ok
                1(5)[unfolded patchSplitMax_fill_take[OF g ni nl t_def]]])
      qed
    qed
  qed
qed

lemma patchSplitMax_post_bound:
  assumes "fill_bound dmp patch False"
  shows "length1 (patchSplitMax_post dmp big patch) \<le> matchMaxBits dmp \<or>
         monster_delete dmp (patchSplitMax_post dmp big patch)"
proof -
  define pc where "pc = substring (diffText1 big) 0 (patchMargin dmp)"
  have lpc: "length pc \<le> patchMargin dmp" by (simp add: pc_def substring_0)
  show ?thesis
  proof (cases "length (diffs patch) = 2 \<and> monster_delete dmp patch")
    case True
    then obtain d0 d1 where d: "diffs patch = [d0, d1]" "fst d0 = DIFF_EQUAL" "fst d1 = DIFF_DELETE"
        "2 * matchMaxBits dmp < length (snd d1)"
      by (cases "diffs patch"; cases "tl (diffs patch)")
         (auto simp: monster_delete_def split: list.splits)
    have "monster_delete dmp (patchSplitMax_post dmp big patch)"
      using d unfolding patchSplitMax_post_def pc_def[symmetric] Let_def monster_delete_def
      by (cases "pc = []") simp_all
    then show ?thesis ..
  next
    case False
    with assms have b: "length1 patch + patchMargin dmp \<le> matchMaxBits dmp"
      by (simp add: fill_bound_def)
    have "length1 (patchSplitMax_post dmp big patch) \<le> length1 patch + length pc"
      unfolding patchSplitMax_post_def pc_def[symmetric] Let_def by simp
    with b lpc show ?thesis by linarith
  qed
qed

lemma patchSplitMax_big_bound_aux:
  assumes "patchSplitMax_big dmp big s1 s2 precontext out = Some r"
  shows "(\<forall>p\<in>set out. length1 p \<le> matchMaxBits dmp \<or> monster_delete dmp p) \<longrightarrow>
         (\<forall>p\<in>set r. length1 p \<le> matchMaxBits dmp \<or> monster_delete dmp p)"
  using assms
proof (induction rule: patchSplitMax_big.raw_induct[rotated 1, consumes 1, case_names step])
  case (step f dmp big s1 s2 precontext out r)
  show ?case
  proof (cases "length big \<noteq> 0")
    case False
    with step(2) show ?thesis by simp
  next
    case True
    obtain big' patch s1' s2' emp where
      fl: "patchSplitMax_fill dmp big (patchSplitMax_start s1 s2 precontext) s1 s2 True
            = (big', patch, s1', s2', emp)"
      by (metis prod_cases5)
    have "fill_bound dmp (patchSplitMax_start s1 s2 precontext) True"
      by (simp add: fill_bound_def)
    from patchSplitMax_fill_bound[OF this fl] have fb: "fill_bound dmp patch emp" .
    let ?out = "if \<not> emp then out @ [patchSplitMax_post dmp big' patch] else out"
    from step(2) have "(case patchSplitMax_fill dmp big (patchSplitMax_start s1 s2 precontext) s1 s2 True of
           (big', patch, s1', s2', emp) \<Rightarrow>
             f dmp big' s1' s2'
               (substring_from (diffText2 (diffs patch))
                  (length (diffText2 (diffs patch)) - patchMargin dmp))
               (if \<not> emp then out @ [patchSplitMax_post dmp big' patch] else out)) = Some r"
      by (simp only: if_P[OF True])
    then have "f dmp big' s1' s2'
            (substring_from (diffText2 (diffs patch)) (length (diffText2 (diffs patch)) - patchMargin dmp))
            ?out = Some r"
      unfolding fl prod.case .
    from step(1)[OF this]
    have imp: "(\<forall>p\<in>set ?out. length1 p \<le> matchMaxBits dmp \<or> monster_delete dmp p) \<longrightarrow>
               (\<forall>p\<in>set r. length1 p \<le> matchMaxBits dmp \<or> monster_delete dmp p)" .
    show ?thesis
    proof
      assume o: "\<forall>p\<in>set out. length1 p \<le> matchMaxBits dmp \<or> monster_delete dmp p"
      have "\<forall>p\<in>set ?out. length1 p \<le> matchMaxBits dmp \<or> monster_delete dmp p"
      proof (cases emp)
        case True
        with o show ?thesis by simp
      next
        case False
        with fb have "fill_bound dmp patch False" by simp
        from patchSplitMax_post_bound[OF this, of big'] o False show ?thesis by simp
      qed
      with imp show "\<forall>p\<in>set r. length1 p \<le> matchMaxBits dmp \<or> monster_delete dmp p" by blast
    qed
  qed
qed

lemma patchSplitMax_bound_aux:
  "patchSplitMax dmp patches = Some r \<Longrightarrow>
   \<forall>p\<in>set r. length1 p \<le> matchMaxBits dmp \<or> monster_delete dmp p"
proof (induction patches arbitrary: r)
  case Nil
  then show ?case by simp
next
  case (Cons p patches)
  show ?case
  proof (cases "length1 p \<le> matchMaxBits dmp")
    case True
    then obtain r' where r': "patchSplitMax dmp patches = Some r'" and r: "r = p # r'"
      using Cons.prems(1) by (auto split: option.splits)
    from Cons.IH[OF r'] True r show ?thesis by simp
  next
    case False
    then obtain small r' where
      s: "patchSplitMax_big dmp (diffs p) (num (start1 p)) (num (start2 p)) [] [] = Some small"
      and r': "patchSplitMax dmp patches = Some r'" and r: "r = small @ r'"
      using Cons.prems(1) by (auto split: option.splits)
    from patchSplitMax_big_bound_aux[OF s]
    have "\<forall>q\<in>set small. length1 q \<le> matchMaxBits dmp \<or> monster_delete dmp q" by simp
    with Cons.IH[OF r'] r show ?thesis by auto
  qed
qed


section \<open>Patch claims\<close>

text \<open>
  Inputs of the repository's own tests: a text of 70 digits replaced by \<open>abc\<close>
  (\<open>testPatchSplitMax\<close>), and the single deletion of 65 characters after one kept
  character.
\<close>

definition digits70 :: jsstring where
  "digits70 = concat (replicate 7 (js ''1234567890''))"

definition patch70 :: patchObj where
  "patch70 = \<lparr> diffs = [(DIFF_DELETE, digits70), (DIFF_INSERT, js ''abc'')],
                start1 = Some 0, start2 = Some 0, length1 = 70, length2 = 3 \<rparr>"

definition patch70_split :: "patchObj list" where
  "patch70_split =
     [\<lparr> diffs = [(DIFF_DELETE, js ''1234567890123456789012345678''), (DIFF_EQUAL, js ''9012'')],
        start1 = Some 0, start2 = Some 0, length1 = 32, length2 = 4 \<rparr>,
      \<lparr> diffs = [(DIFF_DELETE, js ''9012345678901234567890123456''), (DIFF_EQUAL, js ''7890'')],
        start1 = Some 28, start2 = Some 0, length1 = 32, length2 = 4 \<rparr>,
      \<lparr> diffs = [(DIFF_DELETE, js ''78901234567890''), (DIFF_INSERT, js ''abc'')],
        start1 = Some 56, start2 = Some 0, length1 = 14, length2 = 3 \<rparr>]"

definition patch70_padded :: patchObj where
  "patch70_padded =
     \<lparr> diffs = [(DIFF_EQUAL, [1, 2, 3, 4]), (DIFF_DELETE, digits70), (DIFF_INSERT, js ''abc''),
                (DIFF_EQUAL, [1, 2, 3, 4])],
       start1 = Some 0, start2 = Some 0, length1 = 78, length2 = 11 \<rparr>"

definition bigDelete :: patchObj where
  "bigDelete = \<lparr> diffs = [(DIFF_EQUAL, js ''a''), (DIFF_DELETE, replicate 65 98)],
                  start1 = Some 0, start2 = Some 0, length1 = 66, length2 = 1 \<rparr>"

text \<open>
  Claim C5. Every patch that \<open>patchMake\<close> builds from a source text and a list of diffs has
  \<open>length1\<close> equal to the summed text lengths of its diffs that are not insertions and
  \<open>length2\<close> equal to the summed text lengths of its diffs that are not deletions; when
  every patch of a list has this property, every patch of the list after \<open>patchSplitMax\<close>
  has it, and every patch of the list after \<open>patchAddPadding\<close> has it. The statement is
  for any diffs, so it covers the diffs that the call shape \<open>(text1, text2)\<close> computes.
\<close>

theorem patch_lengths_invariant:
  "(patchMake_from dmp text1 ds = Some (Inr patches) \<longrightarrow> (\<forall>p\<in>set patches. patch_lengths_ok p)) \<and>
   ((\<forall>p\<in>set ps. patch_lengths_ok p) \<and> patchSplitMax dmp ps = Some ps1 \<longrightarrow>
      (\<forall>p\<in>set ps1. patch_lengths_ok p)) \<and>
   ((\<forall>p\<in>set ps. patch_lengths_ok p) \<and> patchAddPadding dmp ps = Inr (ps2, padding) \<longrightarrow>
      (\<forall>p\<in>set ps2. patch_lengths_ok p))"
  using patchMake_from_lengths patchSplitMax_lengths patchAddPadding_lengths by blast

theorem patch_lengths_invariant_witness:
  "patchMake_from default_config digits70 [(DIFF_DELETE, digits70), (DIFF_INSERT, js ''abc'')]
     = Some (Inr [patch70]) \<and>
   patch_lengths_ok patch70 \<and>
   patchSplitMax default_config [patch70] = Some patch70_split \<and>
   patch_lengths_ok (patch70_split ! 0) \<and> patch_lengths_ok (patch70_split ! 1) \<and>
   patch_lengths_ok (patch70_split ! 2) \<and>
   patchAddPadding default_config [patch70] = Inr ([patch70_padded], [1, 2, 3, 4]) \<and>
   patch_lengths_ok patch70_padded"
proof -
  have m: "patchMake_from default_config digits70 [(DIFF_DELETE, digits70), (DIFF_INSERT, js ''abc'')]
     = Some (Inr [patch70])"
    by code_simp
  have s: "patchSplitMax default_config [patch70] = Some patch70_split"
    by code_simp
  have p: "patchAddPadding default_config [patch70] = Inr ([patch70_padded], [1, 2, 3, 4])"
    by code_simp
  note t = patch_lengths_invariant[of default_config digits70
      "[(DIFF_DELETE, digits70), (DIFF_INSERT, js ''abc'')]" "[patch70]" "[patch70]"
      patch70_split "[patch70_padded]" "[1, 2, 3, 4]"]
  from t m have 1: "patch_lengths_ok patch70" by simp
  from t 1 s have "\<forall>p\<in>set patch70_split. patch_lengths_ok p" by simp
  then have 2: "patch_lengths_ok (patch70_split ! 0) \<and> patch_lengths_ok (patch70_split ! 1) \<and>
     patch_lengths_ok (patch70_split ! 2)"
    by (simp add: patch70_split_def)
  from t 1 p have 3: "patch_lengths_ok patch70_padded" by simp
  from m s p 1 2 3 show ?thesis by blast
qed

text \<open>
  Claim C6, as stated, fails. \<open>patchMake\<close> on the text \<open>a\<close> followed by 65 times \<open>b\<close>, with
  the diffs \<open>[(=, "a"), (-, "bbb...")]\<close>, gives one patch with \<open>length1 = 66\<close>;
  \<open>patchSplitMax\<close> with \<open>matchMaxBits = 32\<close> returns that patch unchanged, because the
  deletion is longer than \<open>2 * 32\<close> and passes in one chunk.
\<close>

theorem patchSplitMax_keeps_big_delete:
  "patchMake_from default_config (js ''a'' @ replicate 65 98)
       [(DIFF_EQUAL, js ''a''), (DIFF_DELETE, replicate 65 98)] = Some (Inr [bigDelete]) \<and>
   patchSplitMax default_config [bigDelete] = Some [bigDelete] \<and>
   \<not> length1 bigDelete \<le> matchMaxBits default_config"
proof -
  have 1: "patchMake_from default_config (js ''a'' @ replicate 65 98)
       [(DIFF_EQUAL, js ''a''), (DIFF_DELETE, replicate 65 98)] = Some (Inr [bigDelete])"
    by code_simp
  have 2: "patchSplitMax default_config [bigDelete] = Some [bigDelete]"
    by code_simp
  have 3: "\<not> length1 bigDelete \<le> matchMaxBits default_config"
    by (simp add: bigDelete_def default_config_def)
  from 1 2 3 show ?thesis by blast
qed

text \<open>
  Claim C6, amended. After \<open>patchSplitMax\<close> returns, every patch of the list has
  \<open>length1 \<le> matchMaxBits\<close>, or it is a patch of the large-deletion branch: an equality,
  a deletion of more than \<open>2 * matchMaxBits\<close> characters and at most one closing equality.
\<close>

theorem patchSplitMax_bound:
  "patchSplitMax dmp patches = Some r \<Longrightarrow>
   \<forall>p\<in>set r. length1 p \<le> matchMaxBits dmp \<or> monster_delete dmp p"
  by (rule patchSplitMax_bound_aux)

theorem patchSplitMax_bound_witness:
  "patchSplitMax default_config [patch70] = Some patch70_split \<and>
   length1 (patch70_split ! 0) \<le> matchMaxBits default_config \<and>
   length1 (patch70_split ! 1) \<le> matchMaxBits default_config \<and>
   length1 (patch70_split ! 2) \<le> matchMaxBits default_config \<and>
   patchSplitMax default_config [bigDelete] = Some [bigDelete] \<and>
   monster_delete default_config bigDelete"
proof -
  have s: "patchSplitMax default_config [patch70] = Some patch70_split"
    by code_simp
  have b: "patchSplitMax default_config [bigDelete] = Some [bigDelete]"
    by code_simp
  have n: "\<not> length1 bigDelete \<le> matchMaxBits default_config"
    by (simp add: bigDelete_def default_config_def)
  from patchSplitMax_bound[OF b] n have 1: "monster_delete default_config bigDelete" by simp
  from patchSplitMax_bound[OF s]
  have a: "\<forall>p\<in>set patch70_split. length1 p \<le> matchMaxBits default_config \<or>
             monster_delete default_config p" .
  have "\<not> monster_delete default_config (patch70_split ! 0) \<and>
        \<not> monster_delete default_config (patch70_split ! 1) \<and>
        \<not> monster_delete default_config (patch70_split ! 2)"
    by (simp add: patch70_split_def monster_delete_def)
  with a have 2: "length1 (patch70_split ! 0) \<le> matchMaxBits default_config \<and>
     length1 (patch70_split ! 1) \<le> matchMaxBits default_config \<and>
     length1 (patch70_split ! 2) \<le> matchMaxBits default_config"
    by (simp add: patch70_split_def)
  from s b 1 2 show ?thesis by blast
qed


section \<open>Host functions: encodeURI, decodeURI, parseInt, number to string\<close>

text \<open>
  These are functions of the JavaScript host, not of the repository. They are modelled
  after ECMA-262 (\<open>Encode\<close> and \<open>Decode\<close> of the URI handling functions, \<open>parseInt\<close>,
  \<open>Number::toString\<close> on non-negative integers). A code unit is read as a natural
  number with \<open>unat\<close>.
\<close>

definition uriReserved :: "nat \<Rightarrow> bool" where
  \<comment> \<open>\<open>; / ? : @ & = + $ ,\<close> and \<open>#\<close>\<close>
  "uriReserved n \<longleftrightarrow> n \<in> {59, 47, 63, 58, 64, 38, 61, 43, 36, 44, 35}"

definition uriUnescaped :: "nat \<Rightarrow> bool" where
  \<comment> \<open>letters, digits and \<open>- _ . ! ~ * ' ( )\<close>\<close>
  "uriUnescaped n \<longleftrightarrow>
     (65 \<le> n \<and> n \<le> 90) \<or> (97 \<le> n \<and> n \<le> 122) \<or> (48 \<le> n \<and> n \<le> 57) \<or>
     n \<in> {45, 95, 46, 33, 126, 42, 39, 40, 41}"

text \<open>UTF-8 octets of a code point.\<close>

definition utf8 :: "nat \<Rightarrow> nat list" where
  "utf8 cp =
     (if cp < 128 then [cp]
      else if cp < 2048 then [192 + cp div 64, 128 + cp mod 64]
      else if cp < 65536 then [224 + cp div 4096, 128 + cp div 64 mod 64, 128 + cp mod 64]
      else [240 + cp div 262144, 128 + cp div 4096 mod 64, 128 + cp div 64 mod 64,
            128 + cp mod 64])"

definition hexDigit :: "nat \<Rightarrow> jschar" where
  "hexDigit n = (if n < 10 then of_nat (48 + n) else of_nat (55 + n))"

definition pctEncode :: "nat list \<Rightarrow> jsstring" where
  "pctEncode octets = concat (map (\<lambda>b. [37, hexDigit (b div 16), hexDigit (b mod 16)]) octets)"

definition isLead :: "jschar \<Rightarrow> bool" where
  "isLead c \<longleftrightarrow> 55296 \<le> unat c \<and> unat c \<le> 56319"

definition isTrail :: "jschar \<Rightarrow> bool" where
  "isTrail c \<longleftrightarrow> 56320 \<le> unat c \<and> unat c \<le> 57343"

definition pairValue :: "jschar \<Rightarrow> jschar \<Rightarrow> nat" where
  "pairValue c d = 65536 + (unat c - 55296) * 1024 + (unat d - 56320)"

text \<open>
  \<open>encodeURI\<close>: a code unit of the unescaped set (reserved, unescaped, \<open>#\<close>) is copied;
  any other code point is written as the percent-escapes of its UTF-8 octets; an unpaired
  surrogate is a URIError.
\<close>

fun encodeURI :: "jsstring \<Rightarrow> error + jsstring" where
  "encodeURI [] = Inr []"
| "encodeURI (c # cs) =
     (if uriReserved (unat c) \<or> uriUnescaped (unat c) then
        (case encodeURI cs of Inl e \<Rightarrow> Inl e | Inr r \<Rightarrow> Inr (c # r))
      else if isTrail c then Inl URIError
      else if isLead c then
        (case cs of
           [] \<Rightarrow> Inl URIError
         | d # ds \<Rightarrow>
             if isTrail d then
               (case encodeURI ds of
                  Inl e \<Rightarrow> Inl e
                | Inr r \<Rightarrow> Inr (pctEncode (utf8 (pairValue c d)) @ r))
             else Inl URIError)
      else
        (case encodeURI cs of
           Inl e \<Rightarrow> Inl e
         | Inr r \<Rightarrow> Inr (pctEncode (utf8 (unat c)) @ r)))"

definition hexValue :: "jschar \<Rightarrow> nat option" where
  "hexValue c =
     (let n = unat c in
      if 48 \<le> n \<and> n \<le> 57 then Some (n - 48)
      else if 65 \<le> n \<and> n \<le> 70 then Some (n - 55)
      else if 97 \<le> n \<and> n \<le> 102 then Some (n - 87)
      else None)"

text \<open>The octet written by one escape \<open>%XY\<close> at the head of a string.\<close>

definition readEscape :: "jsstring \<Rightarrow> nat option" where
  "readEscape s =
     (case s of
        p # h # l # rest \<Rightarrow>
          (if p = 37 then
             (case (hexValue h, hexValue l) of
                (Some a, Some b) \<Rightarrow> Some (16 * a + b)
              | _ \<Rightarrow> None)
           else None)
      | _ \<Rightarrow> None)"

text \<open>The next \<open>n\<close> escapes of a string, as octets; \<open>None\<close> when one of them is malformed.\<close>

fun readEscapes :: "nat \<Rightarrow> jsstring \<Rightarrow> nat list option" where
  "readEscapes 0 s = Some []"
| "readEscapes (Suc n) s =
     (case readEscape s of
        None \<Rightarrow> None
      | Some b \<Rightarrow> (case readEscapes n (drop 3 s) of None \<Rightarrow> None | Some bs \<Rightarrow> Some (b # bs)))"

text \<open>Number of leading 1 bits of an octet that is at least 128.\<close>

definition leadingOnes :: "nat \<Rightarrow> nat" where
  "leadingOnes b =
     (if b < 192 then 1 else if b < 224 then 2 else if b < 240 then 3
      else if b < 248 then 4 else 5)"

text \<open>
  The code point of a sequence of octets, when the sequence is a valid UTF-8 encoding
  (continuation octets \<open>10xxxxxx\<close>, shortest form, no surrogate, at most \<open>0x10FFFF\<close>).
\<close>

definition isCont :: "nat \<Rightarrow> bool" where
  "isCont b \<longleftrightarrow> 128 \<le> b \<and> b < 192"

definition utf8Decode :: "nat list \<Rightarrow> nat option" where
  "utf8Decode octets =
     (case octets of
        [b0, b1] \<Rightarrow>
          (let v = (b0 - 192) * 64 + (b1 - 128)
           in if isCont b1 \<and> 128 \<le> v then Some v else None)
      | [b0, b1, b2] \<Rightarrow>
          (let v = (b0 - 224) * 4096 + (b1 - 128) * 64 + (b2 - 128)
           in if isCont b1 \<and> isCont b2 \<and> 2048 \<le> v \<and> \<not> (55296 \<le> v \<and> v \<le> 57343)
              then Some v else None)
      | [b0, b1, b2, b3] \<Rightarrow>
          (let v = (b0 - 240) * 262144 + (b1 - 128) * 4096 + (b2 - 128) * 64 + (b3 - 128)
           in if isCont b1 \<and> isCont b2 \<and> isCont b3 \<and> 65536 \<le> v \<and> v \<le> 1114111
              then Some v else None)
      | _ \<Rightarrow> None)"

definition utf16 :: "nat \<Rightarrow> jsstring" where
  "utf16 v =
     (if v < 65536 then [of_nat v]
      else [of_nat (55296 + (v - 65536) div 1024), of_nat (56320 + (v - 65536) mod 1024)])"

text \<open>
  \<open>decodeURI\<close>: a code unit other than \<open>%\<close> is copied. An escape of an octet below 128
  gives that character, unless the character is reserved or \<open>#\<close>, in which case the
  escape is copied as it is. An escape of a larger octet starts a UTF-8 sequence of 2 to
  4 escapes. Everything else is a URIError.
\<close>

function decodeURI :: "jsstring \<Rightarrow> error + jsstring" where
  "decodeURI s =
     (case s of
        [] \<Rightarrow> Inr []
      | c # cs \<Rightarrow>
          if c \<noteq> 37 then
            (case decodeURI cs of Inl e \<Rightarrow> Inl e | Inr r \<Rightarrow> Inr (c # r))
          else
            (case readEscape s of
               None \<Rightarrow> Inl URIError
             | Some b \<Rightarrow>
                 if b < 128 then
                   (case decodeURI (drop 3 s) of
                      Inl e \<Rightarrow> Inl e
                    | Inr r \<Rightarrow> Inr ((if uriReserved b then take 3 s else [of_nat b]) @ r))
                 else
                   (let n = leadingOnes b
                    in if n = 1 \<or> 4 < n then Inl URIError
                       else if length (drop 3 s) < 3 * (n - 1) then Inl URIError
                       else
                         (case readEscapes (n - 1) (drop 3 s) of
                            None \<Rightarrow> Inl URIError
                          | Some bs \<Rightarrow>
                              (case utf8Decode (b # bs) of
                                 None \<Rightarrow> Inl URIError
                               | Some v \<Rightarrow>
                                   (case decodeURI (drop (3 * n) s) of
                                      Inl e \<Rightarrow> Inl e
                                    | Inr r \<Rightarrow> Inr (utf16 v @ r)))))))"
  by pat_completeness auto
termination
  by (relation "measure length") (auto simp: leadingOnes_def split: if_splits)

declare decodeURI.simps [simp del]

text \<open>\<open>s.replace(/%20/g, " ")\<close>.\<close>

fun replace20 :: "jsstring \<Rightarrow> jsstring" where
  "replace20 (a # b # c # rest) =
     (if a = 37 \<and> b = 50 \<and> c = 48 then 32 # replace20 rest
      else a # replace20 (b # c # rest))"
| "replace20 s = s"

text \<open>Decimal digits of a natural number (\<open>"" + n\<close>).\<close>

function showNat :: "nat \<Rightarrow> jsstring" where
  "showNat n = (if n < 10 then [of_nat (48 + n)] else showNat (n div 10) @ [of_nat (48 + n mod 10)])"
  by pat_completeness auto
termination
  by (relation "measure id") auto

declare showNat.simps [simp del]

text \<open>\<open>"" + n\<close> for an integer.\<close>

definition showInt :: "int \<Rightarrow> jsstring" where
  "showInt i = (if i < 0 then 45 # showNat (nat (- i)) else showNat (nat i))"

definition isDigit :: "jschar \<Rightarrow> bool" where
  "isDigit c \<longleftrightarrow> 48 \<le> unat c \<and> unat c \<le> 57"

definition digitsValue :: "jsstring \<Rightarrow> nat" where
  "digitsValue ds = foldl (\<lambda>a c. 10 * a + (unat c - 48)) 0 ds"

definition isWhiteSpace :: "jschar \<Rightarrow> bool" where
  \<comment> \<open>WhiteSpace and LineTerminator of ECMA-262\<close>
  "isWhiteSpace c \<longleftrightarrow>
     unat c \<in> {9, 10, 11, 12, 13, 32, 160, 5760, 8232, 8233, 8239, 8287, 12288, 65279} \<or>
     (8192 \<le> unat c \<and> unat c \<le> 8202)"

text \<open>
  \<open>parseInt(s, 10)\<close>: leading white space is skipped, a sign is read, then the longest
  run of digits; \<open>None\<close> is \<open>NaN\<close> (no digit). The value is exact here, where the source
  rounds to a double above \<open>2^53\<close>.
\<close>

definition parseInt :: "jsstring \<Rightarrow> int option" where
  "parseInt s =
     (let s1 = dropWhile isWhiteSpace s;
          sign = (if s1 \<noteq> [] \<and> hd s1 = 45 then - 1 else 1 :: int);
          s2 = (if s1 \<noteq> [] \<and> (hd s1 = 45 \<or> hd s1 = 43) then tl s1 else s1);
          ds = takeWhile isDigit s2
      in if ds = [] then None else Some (sign * int (digitsValue ds)))"


lemma unat_of_nat16: "n < 65536 \<Longrightarrow> unat (of_nat n :: jschar) = n"
  by (simp add: unat_of_nat)

lemma of_nat_unat16: "(of_nat (unat c) :: jschar) = c"
  by simp

lemma unat_lt16: "unat (c :: jschar) < 65536"
proof -
  have "unat c < 2 ^ LENGTH(16)" by (rule unsigned_less)
  then show ?thesis by simp
qed

lemma unat_hexDigit: "n < 16 \<Longrightarrow> unat (hexDigit n) = (if n < 10 then 48 + n else 55 + n)"
proof -
  assume n: "n < 16"
  have "unat (of_nat (48 + n) :: jschar) = 48 + n" "unat (of_nat (55 + n) :: jschar) = 55 + n"
    using n by (simp_all only: unat_of_nat16)
  then show ?thesis unfolding hexDigit_def by (simp only: if_distrib[of unat])
qed

lemma hexValue_hexDigit: "n < 16 \<Longrightarrow> hexValue (hexDigit n) = Some n"
  by (auto simp: hexValue_def unat_hexDigit Let_def)

lemma hexDigit_neq: "n < 16 \<Longrightarrow> hexDigit n \<noteq> 37 \<and> hexDigit n \<noteq> 9 \<and> hexDigit n \<noteq> 10"
proof -
  assume n: "n < 16"
  have "unat (hexDigit n) \<noteq> 37 \<and> unat (hexDigit n) \<noteq> 9 \<and> unat (hexDigit n) \<noteq> 10"
    using n by (simp add: unat_hexDigit)
  then show ?thesis by auto
qed

lemma hexDigit_eq_50: "n < 16 \<Longrightarrow> hexDigit n = 50 \<longleftrightarrow> n = 2"
proof -
  assume n: "n < 16"
  have "hexDigit n = 50 \<longleftrightarrow> unat (hexDigit n) = unat (50 :: jschar)"
    by (simp add: word_unat_eq_iff)
  also have "\<dots> \<longleftrightarrow> n = 2" using n by (auto simp: unat_hexDigit)
  finally show ?thesis .
qed

lemma hexDigit_eq_48: "n < 16 \<Longrightarrow> hexDigit n = 48 \<longleftrightarrow> n = 0"
proof -
  assume n: "n < 16"
  have "hexDigit n = 48 \<longleftrightarrow> unat (hexDigit n) = unat (48 :: jschar)"
    by (simp add: word_unat_eq_iff)
  also have "\<dots> \<longleftrightarrow> n = 0" using n by (auto simp: unat_hexDigit)
  finally show ?thesis .
qed

lemma readEscape_pct:
  "b < 256 \<Longrightarrow> readEscape (37 # hexDigit (b div 16) # hexDigit (b mod 16) # rest) = Some b"
proof -
  assume b: "b < 256"
  then have "b div 16 < 16" "b mod 16 < 16" by auto
  then show ?thesis by (simp add: readEscape_def hexValue_hexDigit)
qed

lemma readEscapes_pctEncode:
  "\<forall>b\<in>set bs. b < 256 \<Longrightarrow> readEscapes (length bs) (pctEncode bs @ rest) = Some bs"
proof (induction bs)
  case Nil
  then show ?case by simp
next
  case (Cons b bs)
  have p: "pctEncode (b # bs) @ rest = 37 # hexDigit (b div 16) # hexDigit (b mod 16) # (pctEncode bs @ rest)"
    by (simp add: pctEncode_def)
  show ?case unfolding p using Cons by (simp add: readEscape_pct)
qed

lemma length_pctEncode: "length (pctEncode bs) = 3 * length bs"
  by (induction bs) (simp_all add: pctEncode_def)

lemma replace20_not_pct: "c \<noteq> 37 \<Longrightarrow> replace20 (c # xs) = c # replace20 xs"
proof (cases xs)
  case Nil
  then show ?thesis by simp
next
  case (Cons a ys)
  assume c: "c \<noteq> 37"
  show ?thesis using Cons c by (cases ys) simp_all
qed

lemma replace20_escape:
  assumes "hi < 16" "lo < 16"
  shows "replace20 (37 # hexDigit hi # hexDigit lo # xs) =
         (if hi = 2 \<and> lo = 0 then 32 # replace20 xs
          else 37 # hexDigit hi # hexDigit lo # replace20 xs)"
proof (cases "hi = 2 \<and> lo = 0")
  case True
  then show ?thesis using assms hexDigit_eq_50[of hi] hexDigit_eq_48[of lo] by simp
next
  case False
  have "replace20 (37 # hexDigit hi # hexDigit lo # xs) = 37 # replace20 (hexDigit hi # hexDigit lo # xs)"
    using False assms hexDigit_eq_50[of hi] hexDigit_eq_48[of lo] by auto
  also have "\<dots> = 37 # hexDigit hi # hexDigit lo # replace20 xs"
    using assms hexDigit_neq by (simp add: replace20_not_pct)
  finally show ?thesis using False by simp
qed



definition validScalar :: "nat \<Rightarrow> bool" where
  "validScalar cp \<longleftrightarrow> cp < 1114112 \<and> \<not> (55296 \<le> cp \<and> cp \<le> 57343)"

lemma utf8_octets: "cp < 1114112 \<Longrightarrow> \<forall>b\<in>set (utf8 cp). b < 256"
  by (auto simp: utf8_def)

lemma utf8_ascii: "cp < 128 \<Longrightarrow> utf8 cp = [cp]"
  by (simp add: utf8_def)

lemma utf8_multi:
  assumes "128 \<le> cp" "validScalar cp"
  shows "utf8Decode (utf8 cp) = Some cp"
    and "leadingOnes (hd (utf8 cp)) = length (utf8 cp)"
    and "128 \<le> hd (utf8 cp)"
    and "2 \<le> length (utf8 cp) \<and> length (utf8 cp) \<le> 4"
    and "\<forall>b\<in>set (utf8 cp). 128 \<le> b"
proof -
  consider (a) "cp < 2048" | (b) "2048 \<le> cp" "cp < 65536" | (c) "65536 \<le> cp" by linarith
  then have "utf8Decode (utf8 cp) = Some cp \<and> leadingOnes (hd (utf8 cp)) = length (utf8 cp) \<and>
      128 \<le> hd (utf8 cp) \<and> 2 \<le> length (utf8 cp) \<and> length (utf8 cp) \<le> 4 \<and>
      (\<forall>b\<in>set (utf8 cp). 128 \<le> b)"
  proof cases
    case a
    have "cp div 64 < 32" using a by simp
    moreover have "cp div 64 * 64 + cp mod 64 = cp" by simp
    ultimately show ?thesis using a assms
      by (simp add: utf8_def utf8Decode_def isCont_def leadingOnes_def Let_def)
  next
    case b
    have 1: "cp div 4096 < 16" using b by simp
    have "cp mod (64 * 64) = 64 * (cp div 64 mod 64) + cp mod 64" by (rule mod_mult2_eq)
    then have m: "cp div 64 mod 64 * 64 + cp mod 64 = cp mod 4096" by simp
    have "cp div 4096 * 4096 + cp mod 4096 = cp" by (rule div_mult_mod_eq)
    with m have 2: "cp div 4096 * 4096 + cp div 64 mod 64 * 64 + cp mod 64 = cp" by linarith
    show ?thesis using b assms 1 2
      by (simp add: utf8_def utf8Decode_def isCont_def leadingOnes_def Let_def validScalar_def)
  next
    case c
    have 0: "cp < 1114112" using assms by (simp add: validScalar_def)
    then have 1: "cp div 262144 < 5" by simp
    have "cp mod (64 * 64) = 64 * (cp div 64 mod 64) + cp mod 64" by (rule mod_mult2_eq)
    then have m: "cp div 64 mod 64 * 64 + cp mod 64 = cp mod 4096" by simp
    have "cp mod (4096 * 64) = 4096 * (cp div 4096 mod 64) + cp mod 4096" by (rule mod_mult2_eq)
    then have m2: "cp div 4096 mod 64 * 4096 + cp mod 4096 = cp mod 262144" by simp
    have "cp div 262144 * 262144 + cp mod 262144 = cp" by (rule div_mult_mod_eq)
    with m m2 have 2: "cp div 262144 * 262144 + cp div 4096 mod 64 * 4096 + cp div 64 mod 64 * 64 + cp mod 64 = cp"
      by linarith
    show ?thesis using c assms 0 1 2
      by (simp add: utf8_def utf8Decode_def isCont_def leadingOnes_def Let_def validScalar_def)
  qed
  then show "utf8Decode (utf8 cp) = Some cp"
    and "leadingOnes (hd (utf8 cp)) = length (utf8 cp)"
    and "128 \<le> hd (utf8 cp)"
    and "2 \<le> length (utf8 cp) \<and> length (utf8 cp) \<le> 4"
    and "\<forall>b\<in>set (utf8 cp). 128 \<le> b"
    by blast+
qed

lemma utf16_unat: "utf16 (unat (c :: jschar)) = [c]"
  using unat_lt16[of c] by (simp add: utf16_def)

lemma pairValue_props:
  assumes "isLead c" "isTrail d"
  shows "utf16 (pairValue c d) = [c, d]" and "validScalar (pairValue c d)" and "128 \<le> pairValue c d"
proof -
  define a where "a = unat c - 55296"
  define b where "b = unat d - 56320"
  have a: "a < 1024" "unat c = 55296 + a" using assms(1) by (auto simp: isLead_def a_def)
  have b: "b < 1024" "unat d = 56320 + b" using assms(2) by (auto simp: isTrail_def b_def)
  have pv: "pairValue c d = 65536 + a * 1024 + b" by (simp add: pairValue_def a_def b_def)
  have "(a * 1024 + b) div 1024 = a" "(a * 1024 + b) mod 1024 = b" using b(1) by simp_all
  then have "utf16 (pairValue c d) = [of_nat (55296 + a), of_nat (56320 + b)]"
    unfolding pv utf16_def by simp
  also have "\<dots> = [of_nat (unat c), of_nat (unat d)]" using a(2) b(2) by simp
  finally show "utf16 (pairValue c d) = [c, d]" by simp
  show "validScalar (pairValue c d)" using a(1) b(1) unfolding pv validScalar_def by simp
  show "128 \<le> pairValue c d" unfolding pv by simp
qed


lemma pctEncode_Cons:
  "pctEncode (b # bs) @ rest = 37 # hexDigit (b div 16) # hexDigit (b mod 16) # (pctEncode bs @ rest)"
  by (simp add: pctEncode_def)

lemma decodeURI_copy:
  "c \<noteq> 37 \<Longrightarrow> decodeURI (c # cs) = (case decodeURI cs of Inl e \<Rightarrow> Inl e | Inr r \<Rightarrow> Inr (c # r))"
  by (subst decodeURI.simps) simp

lemma decodeURI_ascii:
  assumes "cp < 128" "\<not> uriReserved cp"
  shows "decodeURI (pctEncode (utf8 cp) @ rest) =
         (case decodeURI rest of Inl e \<Rightarrow> Inl e | Inr r \<Rightarrow> Inr (utf16 cp @ r))"
proof -
  have b: "cp < 256" using assms(1) by simp
  let ?s = "37 # hexDigit (cp div 16) # hexDigit (cp mod 16) # rest"
  have s: "pctEncode (utf8 cp) @ rest = ?s"
    by (simp add: utf8_ascii[OF assms(1)] pctEncode_def)
  have u: "utf16 cp = [of_nat cp]" using assms(1) by (simp add: utf16_def)
  show ?thesis unfolding s u
    by (subst decodeURI.simps) (simp add: readEscape_pct[OF b] assms)
qed

lemma decodeURI_multi:
  assumes "128 \<le> cp" "validScalar cp"
  shows "decodeURI (pctEncode (utf8 cp) @ rest) =
         (case decodeURI rest of Inl e \<Rightarrow> Inl e | Inr r \<Rightarrow> Inr (utf16 cp @ r))"
proof -
  note m = utf8_multi[OF assms]
  have lt: "cp < 1114112" using assms(2) by (simp add: validScalar_def)
  obtain b bs where bb: "utf8 cp = b # bs" using m(4) by (cases "utf8 cp") auto
  have oct: "\<forall>x\<in>set (b # bs). x < 256" using utf8_octets[OF lt] bb by simp
  then have b256: "b < 256" and bs256: "\<forall>x\<in>set bs. x < 256" by simp_all
  have b128: "128 \<le> b" using m(3) bb by simp
  have n: "leadingOnes b = Suc (length bs)" using m(2) bb by simp
  have nb: "1 \<le> length bs" "length bs \<le> 3" using m(4) bb by simp_all
  let ?s = "37 # hexDigit (b div 16) # hexDigit (b mod 16) # (pctEncode bs @ rest)"
  have s: "pctEncode (utf8 cp) @ rest = ?s" unfolding bb by (rule pctEncode_Cons)
  have re: "readEscape ?s = Some b" by (rule readEscape_pct[OF b256])
  have d3: "drop 3 ?s = pctEncode bs @ rest" by simp
  have res: "readEscapes (length bs) (pctEncode bs @ rest) = Some bs"
    by (rule readEscapes_pctEncode[OF bs256])
  have "drop (3 * length bs) (drop 3 ?s) = rest"
    unfolding d3 by (simp add: length_pctEncode)
  moreover have "3 * length bs + 3 = 3 * Suc (length bs)" by simp
  ultimately have dn: "drop (3 * Suc (length bs)) ?s = rest"
    unfolding drop_drop by (simp only:)
  have len: "\<not> length (pctEncode bs @ rest) < 3 * length bs"
    by (simp add: length_pctEncode)
  have dec: "utf8Decode (b # bs) = Some cp" using m(1) bb by simp
  have "decodeURI ?s = (case decodeURI rest of Inl e \<Rightarrow> Inl e | Inr r \<Rightarrow> Inr (utf16 cp @ r))"
    apply (subst decodeURI.simps)
    apply (simp only: list.case re option.case d3 n Let_def dn diff_Suc_1 res dec)
    using b128 nb len by (cases bs) simp_all
  then show ?thesis unfolding s .
qed

lemma decodeURI_space:
  "decodeURI (32 # rest) = (case decodeURI rest of Inl e \<Rightarrow> Inl e | Inr r \<Rightarrow> Inr (32 # r))"
  by (rule decodeURI_copy) simp


text \<open>A string without unpaired surrogates.\<close>

fun wellFormed :: "jsstring \<Rightarrow> bool" where
  "wellFormed [] = True"
| "wellFormed [c] = (\<not> isLead c \<and> \<not> isTrail c)"
| "wellFormed (c # d # cs) =
     (if isLead c then isTrail d \<and> wellFormed cs
      else \<not> isTrail c \<and> wellFormed (d # cs))"

definition escapeSp :: "nat \<Rightarrow> jsstring" where
  "escapeSp cp = (if cp = 32 then [32] else pctEncode (utf8 cp))"

lemma set_pctEncode:
  "\<forall>b\<in>set bs. b < 256 \<Longrightarrow> x \<in> set (pctEncode bs) \<Longrightarrow> x \<noteq> 9 \<and> x \<noteq> 10"
proof (induction bs)
  case Nil
  then show ?case by (simp add: pctEncode_def)
next
  case (Cons b bs)
  have "b div 16 < 16" "b mod 16 < 16" using Cons.prems(1) by auto
  then have "hexDigit (b div 16) \<noteq> 9 \<and> hexDigit (b div 16) \<noteq> 10"
    "hexDigit (b mod 16) \<noteq> 9 \<and> hexDigit (b mod 16) \<noteq> 10"
    using hexDigit_neq by blast+
  moreover have "x \<in> {37, hexDigit (b div 16), hexDigit (b mod 16)} \<union> set (pctEncode bs)"
    using Cons.prems(2) by (auto simp: pctEncode_def)
  ultimately show ?case using Cons by auto
qed

lemma replace20_pctEncode_high:
  "\<forall>b\<in>set bs. b < 256 \<and> 128 \<le> b \<Longrightarrow> replace20 (pctEncode bs @ xs) = pctEncode bs @ replace20 xs"
proof (induction bs)
  case Nil
  then show ?case by (simp add: pctEncode_def)
next
  case (Cons b bs)
  have b: "b div 16 < 16" "b mod 16 < 16" "b div 16 \<noteq> 2" using Cons.prems by auto
  have "replace20 (pctEncode (b # bs) @ xs) =
        37 # hexDigit (b div 16) # hexDigit (b mod 16) # replace20 (pctEncode bs @ xs)"
    unfolding pctEncode_Cons using replace20_escape[OF b(1,2)] b(3) by simp
  also have "\<dots> = pctEncode (b # bs) @ replace20 xs"
    using Cons by (simp add: pctEncode_Cons)
  finally show ?case .
qed

lemma unit_escape:
  assumes "validScalar cp" and "cp < 128 \<longrightarrow> \<not> uriReserved cp"
  shows "replace20 (pctEncode (utf8 cp) @ xs) = escapeSp cp @ replace20 xs"
    and "decodeURI (escapeSp cp @ rest) =
         (case decodeURI rest of Inl e \<Rightarrow> Inl e | Inr r \<Rightarrow> Inr (utf16 cp @ r))"
    and "9 \<notin> set (escapeSp cp) \<and> 10 \<notin> set (escapeSp cp)"
proof -
  have lt: "cp < 1114112" using assms(1) by (simp add: validScalar_def)
  have nl: "9 \<notin> set (pctEncode (utf8 cp)) \<and> 10 \<notin> set (pctEncode (utf8 cp))"
    using set_pctEncode[OF utf8_octets[OF lt]] by blast
  show "9 \<notin> set (escapeSp cp) \<and> 10 \<notin> set (escapeSp cp)"
    using nl by (simp add: escapeSp_def)
  show "replace20 (pctEncode (utf8 cp) @ xs) = escapeSp cp @ replace20 xs"
  proof (cases "cp < 128")
    case True
    have h: "cp div 16 < 16" "cp mod 16 < 16" using True by auto
    have e: "cp = 32 \<longleftrightarrow> cp div 16 = 2 \<and> cp mod 16 = 0" by auto
    show ?thesis
      using replace20_escape[OF h, of xs] e
      by (auto simp: utf8_ascii[OF True] pctEncode_def escapeSp_def)
  next
    case False
    then have ge: "128 \<le> cp" by simp
    have "\<forall>b\<in>set (utf8 cp). b < 256 \<and> 128 \<le> b"
      using utf8_octets[OF lt] utf8_multi(5)[OF ge assms(1)] by blast
    from replace20_pctEncode_high[OF this] show ?thesis using ge by (simp add: escapeSp_def)
  qed
  show "decodeURI (escapeSp cp @ rest) =
         (case decodeURI rest of Inl e \<Rightarrow> Inl e | Inr r \<Rightarrow> Inr (utf16 cp @ r))"
  proof (cases "cp = 32")
    case True
    have "utf16 32 = [32]" by (simp add: utf16_def)
    then show ?thesis unfolding True using decodeURI_space[of rest]
      by (cases "decodeURI rest") (simp_all add: escapeSp_def)
  next
    case ns: False
    show ?thesis
    proof (cases "cp < 128")
      case True
      with assms(2) have "\<not> uriReserved cp" by simp
      from decodeURI_ascii[OF True this] ns show ?thesis by (simp add: escapeSp_def)
    next
      case False
      then have "128 \<le> cp" by simp
      from decodeURI_multi[OF this assms(1)] ns show ?thesis by (simp add: escapeSp_def)
    qed
  qed
qed

lemma unescaped_not_special:
  assumes "uriReserved (unat c) \<or> uriUnescaped (unat c)"
  shows "c \<noteq> 37 \<and> c \<noteq> 9 \<and> c \<noteq> 10 \<and> \<not> isLead c \<and> \<not> isTrail c"
proof -
  have "unat c \<noteq> 37 \<and> unat c \<noteq> 9 \<and> unat c \<noteq> 10 \<and> unat c < 128"
    using assms by (auto simp: uriReserved_def uriUnescaped_def)
  then show ?thesis by (auto simp: isLead_def isTrail_def)
qed

lemma encodeURI_roundtrip:
  "encodeURI s = Inr e \<Longrightarrow>
   decodeURI (replace20 e) = Inr s \<and> (\<forall>t. replace20 (e @ t) = replace20 e @ replace20 t) \<and>
   9 \<notin> set (replace20 e) \<and> 10 \<notin> set (replace20 e)"
proof (induction s arbitrary: e rule: encodeURI.induct)
  case 1
  then show ?case by (simp add: decodeURI.simps)
next
  case (2 c cs)
  let ?P = "\<lambda>s e. decodeURI (replace20 e) = Inr s \<and> (\<forall>t. replace20 (e @ t) = replace20 e @ replace20 t) \<and>
   9 \<notin> set (replace20 e) \<and> 10 \<notin> set (replace20 e)"
  show ?case
  proof (cases "uriReserved (unat c) \<or> uriUnescaped (unat c)")
    case True
    then obtain r where r: "encodeURI cs = Inr r" and e: "e = c # r"
      using "2.prems" by (auto split: sum.splits)
    from "2.IH"(1)[OF True r] have ih: "?P cs r" .
    note n = unescaped_not_special[OF True]
    have rp: "\<And>xs. replace20 (c # xs) = c # replace20 xs" using n replace20_not_pct by blast
    show ?thesis unfolding e using ih n
      by (simp add: rp decodeURI_copy)
  next
    case esc: False
    show ?thesis
    proof (cases "isTrail c")
      case True
      with esc "2.prems" show ?thesis by simp
    next
      case nt: False
      show ?thesis
      proof (cases "isLead c")
        case True
        then obtain d ds r where cs: "cs = d # ds" and td: "isTrail d"
          and r: "encodeURI ds = Inr r" and e: "e = pctEncode (utf8 (pairValue c d)) @ r"
          using esc nt "2.prems" by (auto split: list.splits if_splits sum.splits)
        from "2.IH"(2)[OF esc nt True cs td r] have ih: "?P ds r" .
        note pv = pairValue_props[OF True td]
        have a: "pairValue c d < 128 \<longrightarrow> \<not> uriReserved (pairValue c d)" using pv(3) by simp
        note u = unit_escape[OF pv(2) a]
        have rp: "\<And>t. replace20 (e @ t) = escapeSp (pairValue c d) @ replace20 (r @ t)"
          unfolding e using u(1) by simp
        have rp0: "replace20 e = escapeSp (pairValue c d) @ replace20 r"
          using rp[of "[]"] by simp
        show ?thesis unfolding rp rp0 cs using ih u(2)[of "replace20 r"] u(3) pv(1)
          by simp
      next
        case nl: False
        then obtain r where r: "encodeURI cs = Inr r" and e: "e = pctEncode (utf8 (unat c)) @ r"
          using esc nt "2.prems" by (auto split: sum.splits)
        from "2.IH"(3)[OF esc nt nl r] have ih: "?P cs r" .
        have v: "validScalar (unat c)"
          using nt nl unat_lt16[of c] by (auto simp: validScalar_def isLead_def isTrail_def)
        have a: "unat c < 128 \<longrightarrow> \<not> uriReserved (unat c)" using esc by simp
        note u = unit_escape[OF v a]
        have rp: "\<And>t. replace20 (e @ t) = escapeSp (unat c) @ replace20 (r @ t)"
          unfolding e using u(1) by simp
        have rp0: "replace20 e = escapeSp (unat c) @ replace20 r"
          using rp[of "[]"] by simp
        show ?thesis unfolding rp rp0 using ih u(2)[of "replace20 r"] u(3) utf16_unat[of c]
          by simp
      qed
    qed
  qed
qed

lemma encodeURI_wellFormed: "wellFormed s \<Longrightarrow> \<exists>e. encodeURI s = Inr e"
proof (induction s rule: wellFormed.induct)
  case 1
  then show ?case by simp
next
  case (2 c)
  then show ?case by simp
next
  case (3 c d cs)
  show ?case
  proof (cases "isLead c")
    case True
    with 3 obtain e where "encodeURI cs = Inr e" and "isTrail d" by auto
    moreover have "\<not> isTrail c" using True by (auto simp: isLead_def isTrail_def)
    moreover have "\<not> (uriReserved (unat c) \<or> uriUnescaped (unat c))"
      using True unescaped_not_special by blast
    ultimately show ?thesis using True by simp
  next
    case False
    with 3 obtain e where "encodeURI (d # cs) = Inr e" and "\<not> isTrail c" by auto
    then show ?thesis using False by (cases "uriReserved (unat c) \<or> uriUnescaped (unat c)") auto
  qed
qed

lemma encodeURI_not_wellFormed: "\<not> wellFormed s \<Longrightarrow> encodeURI s = Inl URIError"
proof (induction s rule: wellFormed.induct)
  case 1
  then show ?case by simp
next
  case (2 c)
  then have "isLead c \<or> isTrail c" by simp
  moreover have "\<not> (uriReserved (unat c) \<or> uriUnescaped (unat c))"
    using calculation unescaped_not_special by blast
  ultimately show ?case by auto
next
  case (3 c d cs)
  show ?case
  proof (cases "isLead c")
    case True
    have n: "\<not> isTrail c" "\<not> (uriReserved (unat c) \<or> uriUnescaped (unat c))"
      using True unescaped_not_special by (auto simp: isLead_def isTrail_def)
    show ?thesis
    proof (cases "isTrail d")
      case td: True
      with 3 True have "encodeURI cs = Inl URIError" by simp
      then show ?thesis using True n td by simp
    next
      case False
      then show ?thesis using True n by simp
    qed
  next
    case nl: False
    show ?thesis
    proof (cases "isTrail c")
      case True
      moreover have "\<not> (uriReserved (unat c) \<or> uriUnescaped (unat c))"
        using True unescaped_not_special by blast
      ultimately show ?thesis by simp
    next
      case False
      with 3 nl have "encodeURI (d # cs) = Inl URIError" by simp
      then show ?thesis using nl False
        by (cases "uriReserved (unat c) \<or> uriUnescaped (unat c)") auto
    qed
  qed
qed


section \<open>Delta encoding\<close>

text \<open>\<open>xs.join(sep)\<close> and \<open>s.split(sep)\<close> for a separator of one code unit.\<close>

fun joinWith :: "jschar \<Rightarrow> jsstring list \<Rightarrow> jsstring" where
  "joinWith sep [] = []"
| "joinWith sep [x] = x"
| "joinWith sep (x # y # r) = x @ [sep] @ joinWith sep (y # r)"

fun splitOn :: "jschar \<Rightarrow> jsstring \<Rightarrow> jsstring list" where
  "splitOn sep [] = [[]]"
| "splitOn sep (c # cs) =
     (if c = sep then [] # splitOn sep cs
      else (case splitOn sep cs of [] \<Rightarrow> [[c]] | t # ts \<Rightarrow> (c # t) # ts))"

text \<open>
  \<open>diffToDelta\<close>: one token per diff, joined by tabs, then \<open>%20\<close> replaced by a space.
  \<open>encodeURI\<close> is not guarded in the source, so its URIError leaves the function.
\<close>

definition deltaToken :: "Diff \<Rightarrow> error + jsstring" where
  "deltaToken d =
     (case fst d of
        DIFF_INSERT \<Rightarrow> (case encodeURI (snd d) of Inl e \<Rightarrow> Inl e | Inr t \<Rightarrow> Inr (43 # t))
      | DIFF_DELETE \<Rightarrow> Inr (45 # showNat (length (snd d)))
      | DIFF_EQUAL \<Rightarrow> Inr (61 # showNat (length (snd d))))"

fun deltaTokens :: "Diff list \<Rightarrow> error + jsstring list" where
  "deltaTokens [] = Inr []"
| "deltaTokens (d # ds) =
     (case deltaToken d of
        Inl e \<Rightarrow> Inl e
      | Inr tok \<Rightarrow> (case deltaTokens ds of Inl e \<Rightarrow> Inl e | Inr toks \<Rightarrow> Inr (tok # toks)))"

definition diffToDelta :: "Diff list \<Rightarrow> error + jsstring" where
  "diffToDelta ds =
     (case deltaTokens ds of Inl e \<Rightarrow> Inl e | Inr toks \<Rightarrow> Inr (replace20 (joinWith 9 toks)))"

text \<open>
  The loop of \<open>diffFromDelta\<close> over the tokens: the diffs so far and the cursor in
  \<open>text1\<close>. \<open>decodeURI\<close> is guarded: its error becomes \<open>Illegal escape\<close>.
\<close>

fun diffFromDelta_loop ::
  "jsstring \<Rightarrow> jsstring list \<Rightarrow> nat \<Rightarrow> Diff list \<Rightarrow> error + (Diff list \<times> nat)" where
  "diffFromDelta_loop text1 [] pointer ds = Inr (ds, pointer)"
| "diffFromDelta_loop text1 (tok # tokens) pointer ds =
     (case tok of
        [] \<Rightarrow> diffFromDelta_loop text1 tokens pointer ds
      | c # param \<Rightarrow>
          if c = 43 then
            (case decodeURI param of
               Inl e \<Rightarrow> Inl IllegalEscape
             | Inr t \<Rightarrow> diffFromDelta_loop text1 tokens pointer (ds @ [(DIFF_INSERT, t)]))
          else if c = 45 \<or> c = 61 then
            (case parseInt param of
               None \<Rightarrow> Inl InvalidNumber
             | Some n \<Rightarrow>
                 if n < 0 then Inl InvalidNumber
                 else
                   diffFromDelta_loop text1 tokens (pointer + nat n)
                     (ds @ [(if c = 61 then DIFF_EQUAL else DIFF_DELETE,
                             substring text1 pointer (pointer + nat n))]))
          else Inl InvalidOp)"

definition diffFromDelta :: "jsstring \<Rightarrow> jsstring \<Rightarrow> error + Diff list" where
  "diffFromDelta text1 delta =
     (case diffFromDelta_loop text1 (splitOn 9 delta) 0 [] of
        Inl e \<Rightarrow> Inl e
      | Inr (ds, pointer) \<Rightarrow>
          if pointer \<noteq> length text1 then Inl DeltaLengthMismatch else Inr ds)"


subsection \<open>Numbers as decimal strings\<close>

lemma digit_char: "d < 10 \<Longrightarrow> unat (of_nat (48 + d) :: jschar) = 48 + d"
  by (rule unat_of_nat16) simp

lemma showNat_digits: "\<forall>c\<in>set (showNat n). isDigit c"
proof (induction n rule: showNat.induct)
  case (1 n)
  show ?case
  proof (cases "n < 10")
    case True
    then show ?thesis
      by (subst showNat.simps) (simp only: if_True list.set ball_simps isDigit_def digit_char, simp)
  next
    case False
    have m: "n mod 10 < 10" by simp
    have "isDigit (of_nat (48 + n mod 10))"
      unfolding isDigit_def digit_char[OF m] using m by simp
    then show ?thesis using 1[OF False] False
      by (subst showNat.simps) (simp add: del: of_nat_add)
  qed
qed

lemma showNat_nonempty: "showNat n \<noteq> []"
  by (subst showNat.simps) simp

lemma digitsValue_snoc: "digitsValue (ds @ [c]) = 10 * digitsValue ds + (unat c - 48)"
  by (simp add: digitsValue_def)

lemma digitsValue_showNat: "digitsValue (showNat n) = n"
proof (induction n rule: showNat.induct)
  case (1 n)
  show ?case
  proof (cases "n < 10")
    case True
    have "showNat n = [of_nat (48 + n)]" using True by (subst showNat.simps) simp
    then show ?thesis using digit_char[OF True] by (simp add: digitsValue_def del: of_nat_add)
  next
    case False
    have m: "n mod 10 < 10" by simp
    have "showNat n = showNat (n div 10) @ [of_nat (48 + n mod 10)]"
      using False by (subst showNat.simps) simp
    then show ?thesis using 1[OF False] digit_char[OF m]
      by (simp add: digitsValue_snoc del: of_nat_add)
  qed
qed

lemma isDigit_props: "isDigit c \<Longrightarrow> \<not> isWhiteSpace c \<and> c \<noteq> 45 \<and> c \<noteq> 43 \<and> c \<noteq> 37 \<and> c \<noteq> 9 \<and> c \<noteq> 10"
  by (auto simp: isDigit_def isWhiteSpace_def)

lemma parseInt_showNat: "parseInt (showNat n) = Some (int n)"
proof -
  obtain c cs where s: "showNat n = c # cs" using showNat_nonempty by (cases "showNat n") auto
  have d: "\<forall>x\<in>set (c # cs). isDigit x" using showNat_digits[of n] s by simp
  then have c: "isDigit c" by simp
  note p = isDigit_props[OF c]
  have dw: "dropWhile isWhiteSpace (c # cs) = c # cs" using p by simp
  have tw: "takeWhile isDigit (c # cs) = c # cs" using d by (simp add: takeWhile_eq_all_conv)
  have "parseInt (c # cs) = Some (int (digitsValue (c # cs)))"
    unfolding parseInt_def dw Let_def using p tw by simp
  then show ?thesis using digitsValue_showNat[of n] s by simp
qed

lemma showNat_no_special: "37 \<notin> set (showNat n) \<and> 9 \<notin> set (showNat n) \<and> 10 \<notin> set (showNat n)"
  using showNat_digits[of n] isDigit_props by blast

subsection \<open>Splitting and joining\<close>

lemma splitOn_nonempty: "splitOn sep s \<noteq> []"
  by (induction s) (auto split: list.splits)

lemma splitOn_no_sep: "sep \<notin> set t \<Longrightarrow> splitOn sep t = [t]"
  by (induction t) auto

lemma splitOn_append:
  "sep \<notin> set t \<Longrightarrow> splitOn sep (t @ sep # rest) = t # splitOn sep rest"
  by (induction t) auto

lemma splitOn_joinWith:
  "toks \<noteq> [] \<Longrightarrow> \<forall>t\<in>set toks. sep \<notin> set t \<Longrightarrow> splitOn sep (joinWith sep toks) = toks"
proof (induction toks rule: joinWith.induct)
  case (1 sep)
  then show ?case by simp
next
  case (2 sep x)
  then show ?case by (simp add: splitOn_no_sep)
next
  case (3 sep x y r)
  then show ?case by (simp add: splitOn_append)
qed

definition closed20 :: "jsstring \<Rightarrow> bool" where
  "closed20 tok \<longleftrightarrow> (\<forall>t. replace20 (tok @ t) = replace20 tok @ replace20 t)"

lemma replace20_no_pct: "37 \<notin> set xs \<Longrightarrow> replace20 (xs @ t) = xs @ replace20 t"
  by (induction xs) (simp_all add: replace20_not_pct)

lemma closed20_no_pct: "37 \<notin> set xs \<Longrightarrow> closed20 xs \<and> replace20 xs = xs"
  using replace20_no_pct[of xs] replace20_no_pct[of xs "[]"] by (simp add: closed20_def)

lemma replace20_joinWith:
  "\<forall>t\<in>set toks. closed20 t \<Longrightarrow> sep \<noteq> 37 \<Longrightarrow>
   replace20 (joinWith sep toks) = joinWith sep (map replace20 toks)"
proof (induction toks rule: joinWith.induct)
  case (1 sep)
  then show ?case by simp
next
  case (2 sep x)
  then show ?case by simp
next
  case (3 sep x y r)
  have "replace20 (x @ [sep] @ joinWith sep (y # r)) = replace20 x @ replace20 (sep # joinWith sep (y # r))"
    using 3(2) by (simp add: closed20_def)
  also have "\<dots> = replace20 x @ sep # replace20 (joinWith sep (y # r))"
    using 3(3) by (simp add: replace20_not_pct)
  finally show ?case using 3 by simp
qed


subsection \<open>The delta of a script decodes to the script\<close>

lemma deltaToken_props:
  assumes "deltaToken d = Inr tok"
  shows "closed20 tok \<and> 9 \<notin> set (replace20 tok) \<and> replace20 tok \<noteq> []"
proof (cases "fst d")
  case DIFF_INSERT
  then obtain e where e: "encodeURI (snd d) = Inr e" and tok: "tok = 43 # e"
    using assms by (auto simp: deltaToken_def split: sum.splits)
  note r = encodeURI_roundtrip[OF e]
  have c: "closed20 e" using r by (simp add: closed20_def)
  have "\<And>t. replace20 (tok @ t) = replace20 tok @ replace20 t"
    using c by (simp add: tok replace20_not_pct closed20_def)
  then show ?thesis using r by (simp add: closed20_def tok replace20_not_pct)
next
  case DIFF_DELETE
  then have tok: "tok = 45 # showNat (length (snd d))"
    using assms by (auto simp: deltaToken_def)
  have "37 \<notin> set tok" using showNat_no_special by (simp add: tok)
  from closed20_no_pct[OF this] show ?thesis using showNat_no_special by (simp add: tok)
next
  case DIFF_EQUAL
  then have tok: "tok = 61 # showNat (length (snd d))"
    using assms by (auto simp: deltaToken_def)
  have "37 \<notin> set tok" using showNat_no_special by (simp add: tok)
  from closed20_no_pct[OF this] show ?thesis using showNat_no_special by (simp add: tok)
qed

lemma deltaTokens_props:
  "deltaTokens ds = Inr toks \<Longrightarrow>
   length toks = length ds \<and> (\<forall>t\<in>set toks. closed20 t) \<and> (\<forall>t\<in>set (map replace20 toks). 9 \<notin> set t)"
proof (induction ds arbitrary: toks)
  case Nil
  then show ?case by simp
next
  case (Cons d ds)
  then obtain tok toks' where t: "deltaToken d = Inr tok" "deltaTokens ds = Inr toks'" "toks = tok # toks'"
    by (auto split: sum.splits)
  show ?case using Cons.IH[OF t(2)] deltaToken_props[OF t(1)] by (simp add: t(3))
qed

lemma substring_mid: "substring (pre @ t @ post) (length pre) (length pre + length t) = t"
  by (simp add: substring_def)

lemma diffFromDelta_loop_delta:
  "deltaTokens ds = Inr toks \<Longrightarrow>
   diffFromDelta_loop (pre @ diffText1 ds) (map replace20 toks) (length pre) acc =
     Inr (acc @ ds, length pre + length (diffText1 ds))"
proof (induction ds arbitrary: toks pre acc)
  case Nil
  then show ?case by (simp add: diffText1_def)
next
  case (Cons d ds)
  then obtain tok toks' where t: "deltaToken d = Inr tok" "deltaTokens ds = Inr toks'" "toks = tok # toks'"
    by (auto split: sum.splits)
  obtain k tx where d: "d = (k, tx)" by (cases d)
  show ?case
  proof (cases k)
    case DIFF_INSERT
    then obtain e where e: "encodeURI tx = Inr e" and tok: "tok = 43 # e"
      using t(1) by (auto simp: deltaToken_def d split: sum.splits)
    have r: "replace20 tok = 43 # replace20 e" by (simp add: tok replace20_not_pct)
    have dec: "decodeURI (replace20 e) = Inr tx" using encodeURI_roundtrip[OF e] by simp
    have tx1: "diffText1 (d # ds) = diffText1 ds" by (simp add: diffText1_def d DIFF_INSERT)
    show ?thesis
      using Cons.IH[OF t(2), of pre "acc @ [d]"]
      by (simp add: t(3) r dec tx1) (simp add: d DIFF_INSERT)
  next
    case DIFF_DELETE
    then have tok: "tok = 45 # showNat (length tx)"
      using t(1) by (auto simp: deltaToken_def d)
    have "37 \<notin> set tok" using showNat_no_special by (simp add: tok)
    then have r: "replace20 tok = 45 # showNat (length tx)" using closed20_no_pct tok by metis
    have tx1: "diffText1 (d # ds) = tx @ diffText1 ds" by (simp add: diffText1_def d DIFF_DELETE)
    have sub: "substring (pre @ tx @ diffText1 ds) (length pre) (length pre + length tx) = tx"
      by (rule substring_mid)
    show ?thesis
      using Cons.IH[OF t(2), of "pre @ tx" "acc @ [d]"]
      by (simp add: t(3) r tx1 parseInt_showNat sub) (simp add: d DIFF_DELETE)
  next
    case DIFF_EQUAL
    then have tok: "tok = 61 # showNat (length tx)"
      using t(1) by (auto simp: deltaToken_def d)
    have "37 \<notin> set tok" using showNat_no_special by (simp add: tok)
    then have r: "replace20 tok = 61 # showNat (length tx)" using closed20_no_pct tok by metis
    have tx1: "diffText1 (d # ds) = tx @ diffText1 ds" by (simp add: diffText1_def d DIFF_EQUAL)
    have sub: "substring (pre @ tx @ diffText1 ds) (length pre) (length pre + length tx) = tx"
      by (rule substring_mid)
    show ?thesis
      using Cons.IH[OF t(2), of "pre @ tx" "acc @ [d]"]
      by (simp add: t(3) r tx1 parseInt_showNat sub) (simp add: d DIFF_EQUAL)
  qed
qed

lemma diffFromDelta_diffToDelta:
  assumes "diffToDelta ds = Inr delta"
  shows "diffFromDelta (diffText1 ds) delta = Inr ds"
proof -
  obtain toks where toks: "deltaTokens ds = Inr toks" and delta: "delta = replace20 (joinWith 9 toks)"
    using assms by (auto simp: diffToDelta_def split: sum.splits)
  note p = deltaTokens_props[OF toks]
  have j: "delta = joinWith 9 (map replace20 toks)"
    unfolding delta using p by (intro replace20_joinWith) simp_all
  have loop: "diffFromDelta_loop (diffText1 ds) (map replace20 toks) 0 [] = Inr (ds, length (diffText1 ds))"
    using diffFromDelta_loop_delta[OF toks, of "[]" "[]"] by simp
  show ?thesis
  proof (cases "toks = []")
    case True
    then have "ds = []" using p by simp
    then show ?thesis using True by (simp add: j diffFromDelta_def diffText1_def)
  next
    case False
    then have "splitOn 9 delta = map replace20 toks"
      unfolding j using p by (intro splitOn_joinWith) simp_all
    then show ?thesis using loop by (simp add: diffFromDelta_def)
  qed
qed

text \<open>
  \<open>diffToDelta\<close> returns exactly when every inserted text is well-formed UTF-16;
  otherwise \<open>encodeURI\<close> throws.
\<close>

fun insertsWellFormed :: "Diff list \<Rightarrow> bool" where
  "insertsWellFormed [] = True"
| "insertsWellFormed (d # ds) = ((fst d = DIFF_INSERT \<longrightarrow> wellFormed (snd d)) \<and> insertsWellFormed ds)"

lemma deltaTokens_wellFormed: "insertsWellFormed ds \<Longrightarrow> \<exists>toks. deltaTokens ds = Inr toks"
proof (induction ds)
  case Nil
  then show ?case by simp
next
  case (Cons d ds)
  then obtain toks where toks: "deltaTokens ds = Inr toks" by auto
  have "\<exists>tok. deltaToken d = Inr tok"
  proof (cases "fst d")
    case DIFF_INSERT
    then have "wellFormed (snd d)" using Cons.prems by simp
    from encodeURI_wellFormed[OF this] show ?thesis by (auto simp: deltaToken_def DIFF_INSERT)
  qed (simp_all add: deltaToken_def)
  then show ?case using toks by auto
qed

lemma deltaTokens_not_wellFormed: "\<not> insertsWellFormed ds \<Longrightarrow> deltaTokens ds = Inl URIError"
proof (induction ds)
  case Nil
  then show ?case by simp
next
  case (Cons d ds)
  show ?case
  proof (cases "fst d = DIFF_INSERT \<and> \<not> wellFormed (snd d)")
    case True
    then show ?thesis using encodeURI_not_wellFormed[of "snd d"] by (simp add: deltaToken_def)
  next
    case False
    then have rest: "deltaTokens ds = Inl URIError" using Cons by auto
    have "\<exists>tok. deltaToken d = Inr tok"
    proof (cases "fst d")
      case DIFF_INSERT
      then have "wellFormed (snd d)" using False by simp
      from encodeURI_wellFormed[OF this] show ?thesis by (auto simp: deltaToken_def DIFF_INSERT)
    qed (simp_all add: deltaToken_def)
    then show ?thesis using rest by auto
  qed
qed

text \<open>The invariants a script has after cleanup, as the specification states them.\<close>

fun noEmptyText :: "Diff list \<Rightarrow> bool" where
  "noEmptyText [] = True"
| "noEmptyText (d # ds) = (snd d \<noteq> [] \<and> noEmptyText ds)"

fun noAdjacentSameKind :: "Diff list \<Rightarrow> bool" where
  "noAdjacentSameKind (a # b # r) = (fst a \<noteq> fst b \<and> noAdjacentSameKind (b # r))"
| "noAdjacentSameKind ds = True"

text \<open>
  The diff by code unit between U+1F600 (code units D83D DE00) and U+1F601 (D83D DE01):
  the common prefix D83D is kept, the low surrogate is replaced.
\<close>

definition loneSurrogateScript :: "Diff list" where
  "loneSurrogateScript =
     [(DIFF_EQUAL, [55357]), (DIFF_DELETE, [56832]), (DIFF_INSERT, [56833])]"

definition emojiScript :: "Diff list" where
  "emojiScript = [(DIFF_EQUAL, js ''jump''), (DIFF_DELETE, js ''s''), (DIFF_INSERT, [55357, 56832, 32, 37])]"

text \<open>
  Claim C4 fails in the code. The script that turns U+1F600 into U+1F601 code unit by code
  unit has no empty text and no two consecutive entries of one kind, and its source and
  destination texts are well-formed UTF-16; its inserted text is a lone low surrogate.
  \<open>diffToDelta\<close> calls \<open>encodeURI\<close> on it without a guard and the URIError leaves the
  function, so there is no delta to decode and the round trip of the claim does not hold.
  (\<open>diffFromDelta\<close> guards its \<open>decodeURI\<close> and reports the library's own error.)
\<close>

theorem diffToDelta_lone_surrogate:
  "noEmptyText loneSurrogateScript \<and> noAdjacentSameKind loneSurrogateScript \<and>
   diffText1 loneSurrogateScript = [55357, 56832] \<and> wellFormed (diffText1 loneSurrogateScript) \<and>
   diffText2 loneSurrogateScript = [55357, 56833] \<and> wellFormed (diffText2 loneSurrogateScript) \<and>
   diffToDelta loneSurrogateScript = Inl URIError"
  by (simp add: loneSurrogateScript_def diffToDelta_def deltaToken_def diffText1_def diffText2_def
      isLead_def isTrail_def uriReserved_def uriUnescaped_def
      showNat.simps[of "Suc 0"])

text \<open>
  Where \<open>encodeURI\<close> does not throw, the round trip holds: for every script whose inserted
  texts are well-formed UTF-16 (every surrogate is half of a pair), \<open>diffToDelta\<close> returns a
  delta, and \<open>diffFromDelta\<close> applied to the script's source text and that delta returns
  the script itself, with no error. The post-cleanup invariants are not needed. A script
  with an ill-formed inserted text has no delta.
\<close>

theorem delta_roundtrip:
  "if insertsWellFormed ds
   then \<exists>delta. diffToDelta ds = Inr delta \<and> diffFromDelta (diffText1 ds) delta = Inr ds
   else diffToDelta ds = Inl URIError"
proof (cases "insertsWellFormed ds")
  case True
  from deltaTokens_wellFormed[OF this] obtain toks where "deltaTokens ds = Inr toks" ..
  then have "diffToDelta ds = Inr (replace20 (joinWith 9 toks))" by (simp add: diffToDelta_def)
  then show ?thesis using True diffFromDelta_diffToDelta by auto
next
  case False
  then show ?thesis using deltaTokens_not_wellFormed[OF False] by (simp add: diffToDelta_def)
qed


theorem delta_roundtrip_witness:
  "insertsWellFormed emojiScript \<and>
   diffToDelta emojiScript = Inr (js ''=4'' @ [9] @ js ''-1'' @ [9] @ js ''+%F0%9F%98%80 %25'') \<and>
   diffFromDelta (js ''jumps'') (js ''=4'' @ [9] @ js ''-1'' @ [9] @ js ''+%F0%9F%98%80 %25'') = Inr emojiScript"
proof -
  have w: "insertsWellFormed emojiScript"
    by (simp add: emojiScript_def isLead_def isTrail_def)
  have t: "diffText1 emojiScript = js ''jumps''"
    by (simp add: emojiScript_def diffText1_def js_def)
  have e: "encodeURI [55357, 56832, 32, 37] = Inr (js ''%F0%9F%98%80%20%25'')"
    by (simp add: js_def isLead_def isTrail_def uriReserved_def uriUnescaped_def pctEncode_def
        utf8_def hexDigit_def pairValue_def)
  have n4: "showNat (Suc (Suc (Suc (Suc 0)))) = [52]"
    by (subst showNat.simps) simp
  have n1: "showNat (Suc 0) = [49]"
    by (subst showNat.simps) simp
  have d: "diffToDelta emojiScript = Inr (js ''=4'' @ [9] @ js ''-1'' @ [9] @ js ''+%F0%9F%98%80 %25'')"
    by (simp add: diffToDelta_def emojiScript_def deltaToken_def e n4 n1 js_def
        del: encodeURI.simps)
  show ?thesis using delta_roundtrip[of emojiScript] w t d by simp
qed

subsection \<open>Tokens with a bad number\<close>

text \<open>
  A token \<open>-param\<close> or \<open>=param\<close> whose parameter \<open>parseInt\<close> reads as \<open>NaN\<close> or as a
  negative number.
\<close>

definition badNumberToken :: "jsstring \<Rightarrow> bool" where
  "badNumberToken tok =
     (case tok of
        [] \<Rightarrow> False
      | c # param \<Rightarrow>
          (c = 45 \<or> c = 61) \<and> (case parseInt param of None \<Rightarrow> True | Some n \<Rightarrow> n < 0))"

lemma diffFromDelta_loop_append:
  "diffFromDelta_loop text1 (pre @ rest) p acc =
     (case diffFromDelta_loop text1 pre p acc of
        Inl e \<Rightarrow> Inl e
      | Inr (ds, p') \<Rightarrow> diffFromDelta_loop text1 rest p' ds)"
  by (induction pre arbitrary: p acc) (auto split: list.splits sum.splits option.splits)

lemma diffFromDelta_loop_errors:
  "diffFromDelta_loop text1 toks p acc = Inl e \<Longrightarrow>
   e = IllegalEscape \<or> e = InvalidNumber \<or> e = InvalidOp"
  by (induction toks arbitrary: p acc)
     (auto split: list.splits sum.splits option.splits if_splits)

lemma diffFromDelta_loop_bad:
  "badNumberToken tok \<Longrightarrow> diffFromDelta_loop text1 (tok # post) p acc = Inl InvalidNumber"
  by (auto simp: badNumberToken_def split: list.splits option.splits)

text \<open>
  C10 (as stated): the delta \<open>x\<close>, tab, \<open>-x\<close> contains the token \<open>-x\<close>, whose parameter is not
  a number, and \<open>diffFromDelta\<close> raises \<open>Invalid diff operation\<close>, not \<open>Invalid number\<close>: the
  tokens are read in order and the first token is rejected first.
\<close>

theorem diffFromDelta_earlier_error:
  "splitOn 9 (js ''x'' @ [9] @ js ''-x'') = [js ''x'', js ''-x''] \<and>
   badNumberToken (js ''-x'') \<and>
   diffFromDelta [] (js ''x'' @ [9] @ js ''-x'') = Inl InvalidOp"
  by (simp add: js_def badNumberToken_def parseInt_def isWhiteSpace_def isDigit_def diffFromDelta_def)

text \<open>
  C10 (amended): let a delta string contain a \<open>-\<close> or \<open>=\<close> token whose parameter does not
  parse as a non-negative integer. Then \<open>diffFromDelta\<close> returns no diffs for any \<open>text1\<close>: it
  raises an error. When the tokens before that token are read without error, the error is
  \<open>Invalid number\<close>; otherwise it is the error of the first token that is rejected, one of
  \<open>Illegal escape\<close>, \<open>Invalid diff operation\<close> and \<open>Invalid number\<close>. It is never the
  length mismatch.
\<close>

theorem diffFromDelta_invalid_number:
  assumes "splitOn 9 delta = pre @ tok # post" and "badNumberToken tok"
  shows "case diffFromDelta_loop text1 pre 0 [] of
           Inr r \<Rightarrow> diffFromDelta text1 delta = Inl InvalidNumber
         | Inl e \<Rightarrow> diffFromDelta text1 delta = Inl e \<and>
                    (e = IllegalEscape \<or> e = InvalidOp \<or> e = InvalidNumber)"
proof (cases "diffFromDelta_loop text1 pre 0 []")
  case (Inl e)
  then have "diffFromDelta text1 delta = Inl e"
    by (simp add: diffFromDelta_def assms(1) diffFromDelta_loop_append)
  then show ?thesis using Inl diffFromDelta_loop_errors[OF Inl] by auto
next
  case (Inr r)
  obtain ds p where r: "r = (ds, p)" by (cases r)
  have "diffFromDelta_loop text1 (pre @ tok # post) 0 [] = Inl InvalidNumber"
    unfolding diffFromDelta_loop_append Inr r using diffFromDelta_loop_bad[OF assms(2)] by simp
  then show ?thesis using Inr by (simp add: diffFromDelta_def assms(1))
qed

theorem diffFromDelta_invalid_number_witness:
  "splitOn 9 (js ''=1'' @ [9] @ js ''=-5'') = [js ''=1''] @ js ''=-5'' # [] \<and>
   badNumberToken (js ''=-5'') \<and>
   diffFromDelta_loop (js ''ab'') [js ''=1''] 0 [] = Inr ([(DIFF_EQUAL, js ''a'')], 1) \<and>
   diffFromDelta (js ''ab'') (js ''=1'' @ [9] @ js ''=-5'') = Inl InvalidNumber"
proof -
  have s: "splitOn 9 (js ''=1'' @ [9] @ js ''=-5'') = [js ''=1''] @ js ''=-5'' # []"
    by (simp add: js_def)
  have b: "badNumberToken (js ''=-5'')"
    by (simp add: js_def badNumberToken_def parseInt_def isWhiteSpace_def isDigit_def digitsValue_def)
  have l: "diffFromDelta_loop (js ''ab'') [js ''=1''] 0 [] = Inr ([(DIFF_EQUAL, js ''a'')], 1)"
    by (simp add: js_def parseInt_def isWhiteSpace_def isDigit_def digitsValue_def substring_def)
  show ?thesis
    using diffFromDelta_invalid_number[OF s b, of "js ''ab''"] s b l by simp
qed


section \<open>Patches as text\<close>

subsection \<open>patchObj.toString and patchToText\<close>

text \<open>
  \<open>start + ""\<close> for a start that is a number or \<open>null\<close>.
\<close>

definition showStart :: "int option \<Rightarrow> jsstring" where
  "showStart v = (case v of None \<Rightarrow> js ''null'' | Some n \<Rightarrow> showInt n)"

text \<open>
  The coordinates of one side of the header: \<open>start + ",0"\<close>, \<open>start + 1\<close> or
  \<open>start + 1 + "," + length\<close>. In the sums \<open>null\<close> counts as 0 (\<open>num\<close>).
\<close>

definition patch_coords :: "int option \<Rightarrow> nat \<Rightarrow> jsstring" where
  "patch_coords start len =
     (if len = 0 then showStart start @ js '',0''
      else if len = 1 then showInt (num start + 1)
      else showInt (num start + 1) @ js '','' @ showNat len)"

definition opChar :: "op \<Rightarrow> jschar" where
  "opChar k = (case k of DIFF_INSERT \<Rightarrow> 43 | DIFF_DELETE \<Rightarrow> 45 | DIFF_EQUAL \<Rightarrow> 32)"

text \<open>The body lines \<open>op + encodeURI(text) + "\n"\<close>; \<open>encodeURI\<close> is not guarded.\<close>

fun patch_bodyLines :: "Diff list \<Rightarrow> error + jsstring list" where
  "patch_bodyLines [] = Inr []"
| "patch_bodyLines (d # ds) =
     (case encodeURI (snd d) of
        Inl e \<Rightarrow> Inl e
      | Inr t \<Rightarrow>
          (case patch_bodyLines ds of
             Inl e \<Rightarrow> Inl e
           | Inr ls \<Rightarrow> Inr ((opChar (fst d) # t @ [10]) # ls)))"

definition patch_toString :: "patchObj \<Rightarrow> error + jsstring" where
  "patch_toString p =
     (let coords1 = patch_coords (start1 p) (length1 p);
          coords2 = patch_coords (start2 p) (length2 p);
          header = js ''@@ -'' @ coords1 @ js '' +'' @ coords2 @ js '' @@'' @ [10]
      in case patch_bodyLines (diffs p) of
           Inl e \<Rightarrow> Inl e
         | Inr ls \<Rightarrow> Inr (replace20 (concat (header # ls))))"

text \<open>\<open>patchToText\<close>: \<open>join("")\<close> calls \<open>toString\<close> on each patch in turn.\<close>

fun patchToText :: "patchObj list \<Rightarrow> error + jsstring" where
  "patchToText [] = Inr []"
| "patchToText (p # ps) =
     (case patch_toString p of
        Inl e \<Rightarrow> Inl e
      | Inr s \<Rightarrow> (case patchToText ps of Inl e \<Rightarrow> Inl e | Inr r \<Rightarrow> Inr (s @ r)))"

subsection \<open>patchFromText\<close>

text \<open>
  The header pattern \<open>^@@ -(\d+),?(\d*) \+(\d+),?(\d*) @@$\<close>. One side is a non-empty run
  of digits, an optional comma and a run of digits. The match is unique: the character
  after the second group must be a space, so the first group is the longest run of digits
  (a shorter first group would leave the rest of the run to the second group and require the
  same space) and the comma is taken when it is there.
\<close>

definition stripPrefix :: "jsstring \<Rightarrow> jsstring \<Rightarrow> jsstring option" where
  "stripPrefix pre s = (if take (length pre) s = pre then Some (drop (length pre) s) else None)"

definition matchCoords :: "jsstring \<Rightarrow> (jsstring \<times> jsstring \<times> jsstring) option" where
  "matchCoords s =
     (let m1 = takeWhile isDigit s;
          r1 = dropWhile isDigit s;
          r2 = (if r1 \<noteq> [] \<and> hd r1 = 44 then tl r1 else r1);
          m2 = takeWhile isDigit r2;
          r3 = dropWhile isDigit r2
      in if m1 = [] then None else Some (m1, m2, r3))"

definition patchHeader :: "jsstring \<Rightarrow> (jsstring \<times> jsstring \<times> jsstring \<times> jsstring) option" where
  "patchHeader line =
     (case stripPrefix (js ''@@ -'') line of
        None \<Rightarrow> None
      | Some s1 \<Rightarrow>
          (case matchCoords s1 of
             None \<Rightarrow> None
           | Some (m1, m2, r1) \<Rightarrow>
               (case stripPrefix (js '' +'') r1 of
                  None \<Rightarrow> None
                | Some s2 \<Rightarrow>
                    (case matchCoords s2 of
                       None \<Rightarrow> None
                     | Some (m3, m4, r2) \<Rightarrow>
                         if r2 = js '' @@'' then Some (m1, m2, m3, m4) else None))))"

text \<open>
  One side of the header as \<open>start\<close> and \<open>length\<close>. The first group is a non-empty run
  of digits, so \<open>parseInt\<close> gives a number; its \<open>NaN\<close> would be \<open>None\<close> here.
\<close>

definition headerSide :: "jsstring \<Rightarrow> jsstring \<Rightarrow> int option \<times> nat" where
  "headerSide m1 m2 =
     (let start = parseInt m1
      in if m2 = [] then (map_option (\<lambda>n. n - 1) start, 1)
         else if m2 = js ''0'' then (start, 0)
         else (map_option (\<lambda>n. n - 1) start, (case parseInt m2 of None \<Rightarrow> 0 | Some n \<Rightarrow> nat n)))"

text \<open>
  The inner loop over the lines of one patch: the diffs read and the lines left, the
  first of which is the header of the next patch. \<open>decodeURI\<close> runs before the sign is
  looked at.
\<close>

fun patchFromText_body :: "jsstring list \<Rightarrow> Diff list \<Rightarrow> error + (Diff list \<times> jsstring list)" where
  "patchFromText_body [] ds = Inr (ds, [])"
| "patchFromText_body (l # ls) ds =
     (case decodeURI (drop 1 l) of
        Inl e \<Rightarrow> Inl IllegalEscape
      | Inr line \<Rightarrow>
          if l = [] then patchFromText_body ls ds
          else if hd l = 45 then patchFromText_body ls (ds @ [(DIFF_DELETE, line)])
          else if hd l = 43 then patchFromText_body ls (ds @ [(DIFF_INSERT, line)])
          else if hd l = 32 then patchFromText_body ls (ds @ [(DIFF_EQUAL, line)])
          else if hd l = 64 then Inr (ds, l # ls)
          else Inl InvalidPatchMode)"

lemma patchFromText_body_length:
  "patchFromText_body ls ds = Inr (ds', rest) \<Longrightarrow> length rest \<le> length ls"
proof (induction ls arbitrary: ds)
  case Nil
  then show ?case by simp
next
  case (Cons l ls)
  from Cons.prems have "(\<exists>ds2. patchFromText_body ls ds2 = Inr (ds', rest)) \<or> rest = l # ls"
    by (auto split: sum.splits if_splits)
  then show ?case using Cons.IH by fastforce
qed

function patchFromText_loop :: "jsstring list \<Rightarrow> patchObj list \<Rightarrow> error + patchObj list" where
  "patchFromText_loop [] patches = Inr patches"
| "patchFromText_loop (l # ls) patches =
     (case patchHeader l of
        None \<Rightarrow> Inl InvalidPatchHeader
      | Some (m1, m2, m3, m4) \<Rightarrow>
          (case patchFromText_body ls [] of
             Inl e \<Rightarrow> Inl e
           | Inr (ds, rest) \<Rightarrow>
               patchFromText_loop rest
                 (patches @ [\<lparr> diffs = ds,
                                start1 = fst (headerSide m1 m2), start2 = fst (headerSide m3 m4),
                                length1 = snd (headerSide m1 m2), length2 = snd (headerSide m3 m4) \<rparr>])))"
  by pat_completeness auto
termination
  by (relation "measure (\<lambda>(ls, patches). length ls)")
     (auto simp: less_Suc_eq_le intro: patchFromText_body_length)

declare patchFromText_loop.simps [simp del]

definition patchFromText :: "jsstring \<Rightarrow> error + patchObj list" where
  "patchFromText textline =
     (if textline = [] then Inr [] else patchFromText_loop (splitOn 10 textline) [])"


subsection \<open>A serialised patch list parses back\<close>

lemma decodeURI_Nil: "decodeURI [] = Inr []"
  by (subst decodeURI.simps) simp

lemma decodeURI_no_pct: "37 \<notin> set s \<Longrightarrow> decodeURI s = Inr s"
  by (induction s) (simp_all add: decodeURI_Nil decodeURI_copy)

lemma digits_run:
  assumes "\<forall>x\<in>set ds. isDigit x" and "\<not> isDigit c"
  shows "takeWhile isDigit (ds @ c # r) = ds" and "dropWhile isDigit (ds @ c # r) = c # r"
  using assms by (simp_all add: takeWhile_append2 dropWhile_append2)

lemma showNat_0: "showNat 0 = [48]"
  by (subst showNat.simps) simp

lemma showNat_eq_0: "showNat n = [48] \<Longrightarrow> n = 0"
  using parseInt_showNat[of n] parseInt_showNat[of 0] by (simp add: showNat_0)

lemma isDigit_consts: "\<not> isDigit 44" "\<not> isDigit 32" "isDigit 48" "\<not> isDigit 10" "\<not> isDigit 37"
  by (simp_all add: isDigit_def)

definition startsOk :: "patchObj \<Rightarrow> bool" where
  "startsOk p =
     (case start1 p of
        None \<Rightarrow> False
      | Some a \<Rightarrow> (case start2 p of None \<Rightarrow> False | Some b \<Rightarrow> 0 \<le> a \<and> 0 \<le> b))"

lemma patch_coords_chars:
  assumes "0 \<le> k"
  shows "\<forall>x\<in>set (patch_coords (Some k) len). isDigit x \<or> x = 44"
  using assms showNat_digits
  by (auto simp: patch_coords_def showStart_def showInt_def num_def js_def isDigit_consts)

lemma matchCoords_coords:
  assumes k: "0 \<le> k" and c: "c = 32"
  shows "\<exists>m1 m2. matchCoords (patch_coords (Some k) len @ c # r) = Some (m1, m2, c # r) \<and>
           headerSide m1 m2 = (Some k, len)"
proof -
  have nd: "\<not> isDigit c" "c \<noteq> 44" using c by (simp_all add: isDigit_consts)
  consider (zero) "len = 0" | (one) "len = 1" | (many) "2 \<le> len" by linarith
  then show ?thesis
  proof cases
    case zero
    have co: "patch_coords (Some k) len @ c # r = showNat (nat k) @ 44 # ([48] @ c # r)"
      using k zero by (simp add: patch_coords_def showStart_def showInt_def js_def)
    have t1: "takeWhile isDigit (showNat (nat k) @ 44 # ([48] @ c # r)) = showNat (nat k)"
      and d1: "dropWhile isDigit (showNat (nat k) @ 44 # ([48] @ c # r)) = 44 # ([48] @ c # r)"
      using digits_run[OF showNat_digits isDigit_consts(1)] by blast+
    have t2: "takeWhile isDigit ([48] @ c # r) = [48]"
      and d2: "dropWhile isDigit ([48] @ c # r) = c # r"
      using nd by (simp_all add: isDigit_consts)
    have m: "matchCoords (patch_coords (Some k) len @ c # r) = Some (showNat (nat k), [48], c # r)"
      unfolding co matchCoords_def Let_def t1 d1 using t2 d2 showNat_nonempty by simp
    have h: "headerSide (showNat (nat k)) [48] = (Some k, len)"
      using k zero by (simp add: headerSide_def parseInt_showNat js_def)
    show ?thesis using m h by blast
  next
    case one
    have co: "patch_coords (Some k) len @ c # r = showNat (nat (k + 1)) @ c # r"
      using k one by (simp add: patch_coords_def showInt_def num_def)
    have t1: "takeWhile isDigit (showNat (nat (k + 1)) @ c # r) = showNat (nat (k + 1))"
      and d1: "dropWhile isDigit (showNat (nat (k + 1)) @ c # r) = c # r"
      using digits_run[OF showNat_digits nd(1)] by blast+
    have t2: "takeWhile isDigit (c # r) = []" and d2: "dropWhile isDigit (c # r) = c # r"
      using nd by simp_all
    have m: "matchCoords (patch_coords (Some k) len @ c # r) = Some (showNat (nat (k + 1)), [], c # r)"
      unfolding co matchCoords_def Let_def t1 d1 using t2 d2 showNat_nonempty nd by simp
    have h: "headerSide (showNat (nat (k + 1))) [] = (Some k, len)"
      using k one by (simp add: headerSide_def parseInt_showNat)
    show ?thesis using m h by blast
  next
    case many
    have co: "patch_coords (Some k) len @ c # r =
              showNat (nat (k + 1)) @ 44 # (showNat len @ c # r)"
      using k many by (simp add: patch_coords_def showInt_def num_def js_def)
    have t1: "takeWhile isDigit (showNat (nat (k + 1)) @ 44 # (showNat len @ c # r)) =
              showNat (nat (k + 1))"
      and d1: "dropWhile isDigit (showNat (nat (k + 1)) @ 44 # (showNat len @ c # r)) =
               44 # (showNat len @ c # r)"
      using digits_run[OF showNat_digits isDigit_consts(1)] by blast+
    have t2: "takeWhile isDigit (showNat len @ c # r) = showNat len"
      and d2: "dropWhile isDigit (showNat len @ c # r) = c # r"
      using digits_run[OF showNat_digits nd(1)] by blast+
    have m: "matchCoords (patch_coords (Some k) len @ c # r) =
             Some (showNat (nat (k + 1)), showNat len, c # r)"
      unfolding co matchCoords_def Let_def t1 d1 using t2 d2 showNat_nonempty by simp
    have z: "showNat len \<noteq> [48]" using showNat_eq_0[of len] many by auto
    have h: "headerSide (showNat (nat (k + 1))) (showNat len) = (Some k, len)"
      using k z showNat_nonempty by (simp add: headerSide_def parseInt_showNat js_def)
    show ?thesis using m h by blast
  qed
qed

definition headerLine :: "patchObj \<Rightarrow> jsstring" where
  "headerLine p =
     js ''@@ -'' @ patch_coords (start1 p) (length1 p) @ js '' +'' @
     patch_coords (start2 p) (length2 p) @ js '' @@''"

lemma stripPrefix_append: "stripPrefix pre (pre @ s) = Some s"
  by (simp add: stripPrefix_def)

lemma patchHeader_headerLine:
  assumes "startsOk p"
  shows "\<exists>m1 m2 m3 m4. patchHeader (headerLine p) = Some (m1, m2, m3, m4) \<and>
           headerSide m1 m2 = (start1 p, length1 p) \<and> headerSide m3 m4 = (start2 p, length2 p)"
proof -
  obtain a b where s: "start1 p = Some a" "start2 p = Some b" "0 \<le> a" "0 \<le> b"
    using assms by (auto simp: startsOk_def split: option.splits)
  define r2 :: jsstring where "r2 = js ''@@''"
  define r1 :: jsstring where "r1 = 43 # patch_coords (Some b) (length2 p) @ 32 # r2"
  obtain m1 m2 where m12:
    "matchCoords (patch_coords (Some a) (length1 p) @ 32 # r1) = Some (m1, m2, 32 # r1)"
    "headerSide m1 m2 = (Some a, length1 p)"
    using matchCoords_coords[OF s(3) refl] by blast
  obtain m3 m4 where m34:
    "matchCoords (patch_coords (Some b) (length2 p) @ 32 # r2) = Some (m3, m4, 32 # r2)"
    "headerSide m3 m4 = (Some b, length2 p)"
    using matchCoords_coords[OF s(4) refl] by blast
  have hl: "headerLine p = js ''@@ -'' @ (patch_coords (Some a) (length1 p) @ 32 # r1)"
    by (simp add: headerLine_def s r1_def r2_def js_def)
  have sp: "stripPrefix (js '' +'') (32 # r1) = Some (patch_coords (Some b) (length2 p) @ 32 # r2)"
    by (simp add: stripPrefix_def r1_def js_def)
  have e: "32 # r2 = js '' @@''" by (simp add: r2_def js_def)
  have "patchHeader (headerLine p) = Some (m1, m2, m3, m4)"
    unfolding patchHeader_def hl stripPrefix_append option.case m12(1) prod.case sp m34(1)
    using e by simp
  then show ?thesis using m12(2) m34(2) s by auto
qed

lemma headerLine_chars:
  assumes "startsOk p"
  shows "37 \<notin> set (headerLine p) \<and> 10 \<notin> set (headerLine p) \<and> headerLine p \<noteq> [] \<and>
         hd (headerLine p) = 64"
proof -
  obtain a b where s: "start1 p = Some a" "start2 p = Some b" "0 \<le> a" "0 \<le> b"
    using assms by (auto simp: startsOk_def split: option.splits)
  have c: "\<And>k len. 0 \<le> k \<Longrightarrow> 37 \<notin> set (patch_coords (Some k) len) \<and> 10 \<notin> set (patch_coords (Some k) len)"
    using patch_coords_chars isDigit_consts by fastforce
  show ?thesis using c[OF s(3)] c[OF s(4)] by (simp add: headerLine_def s js_def)
qed

lemma opChar_consts: "opChar k \<noteq> 37" "opChar k \<noteq> 10" "opChar k \<noteq> 64"
  by (cases k; simp add: opChar_def)+

lemma patchFromText_body_line:
  assumes "decodeURI e = Inr tx"
  shows "patchFromText_body ((opChar k # e) # rest) acc = patchFromText_body rest (acc @ [(k, tx)])"
  using assms by (cases k) (simp_all add: opChar_def)

lemma patch_bodyLines_props:
  "patch_bodyLines ds = Inr ls \<Longrightarrow>
   \<exists>ls'. (\<forall>t. replace20 (concat ls @ t) = concat (map (\<lambda>l. l @ [10]) ls') @ replace20 t) \<and>
         (\<forall>l\<in>set ls'. 10 \<notin> set l) \<and>
         (\<forall>acc rest. patchFromText_body (ls' @ rest) acc = patchFromText_body rest (acc @ ds))"
proof (induction ds arbitrary: ls)
  case Nil
  then have "ls = []" by simp
  then show ?case by (intro exI[of _ "[]"]) simp
next
  case (Cons d ds)
  then obtain e ls0 where e: "encodeURI (snd d) = Inr e" and ls0: "patch_bodyLines ds = Inr ls0"
    and ls: "ls = (opChar (fst d) # e @ [10]) # ls0"
    by (auto split: sum.splits)
  from Cons.IH[OF ls0] obtain ls0' where
    r0: "\<And>t. replace20 (concat ls0 @ t) = concat (map (\<lambda>l. l @ [10]) ls0') @ replace20 t"
    and n0: "\<forall>l\<in>set ls0'. 10 \<notin> set l"
    and b0: "\<And>acc rest. patchFromText_body (ls0' @ rest) acc = patchFromText_body rest (acc @ ds)"
    by blast
  note r = encodeURI_roundtrip[OF e]
  define l where "l = opChar (fst d) # replace20 e"
  have 1: "replace20 (concat ls @ t) = concat (map (\<lambda>l. l @ [10]) (l # ls0')) @ replace20 t" for t
  proof -
    have "replace20 (concat ls @ t) = opChar (fst d) # replace20 (e @ (10 # concat ls0 @ t))"
      by (simp add: ls replace20_not_pct opChar_consts)
    also have "\<dots> = opChar (fst d) # replace20 e @ replace20 (10 # concat ls0 @ t)"
      using r by simp
    also have "\<dots> = opChar (fst d) # replace20 e @ 10 # replace20 (concat ls0 @ t)"
      by (simp add: replace20_not_pct)
    finally show ?thesis by (simp add: r0 l_def)
  qed
  have 2: "\<forall>x\<in>set (l # ls0'). 10 \<notin> set x"
    using n0 r opChar_consts by (simp add: l_def)
  have 3: "patchFromText_body ((l # ls0') @ rest) acc = patchFromText_body rest (acc @ d # ds)" for acc rest
  proof -
    have "decodeURI (replace20 e) = Inr (snd d)" using r by simp
    from patchFromText_body_line[OF this, of "fst d" "ls0' @ rest" acc]
    show ?thesis by (simp add: l_def b0)
  qed
  show ?case using 1 2 3 by blast
qed

lemma patch_toString_props:
  assumes "startsOk p" and "patch_toString p = Inr s"
  shows "\<exists>ls'. s = headerLine p @ 10 # concat (map (\<lambda>l. l @ [10]) ls') \<and>
           (\<forall>l\<in>set ls'. 10 \<notin> set l) \<and>
           (\<forall>acc rest. patchFromText_body (ls' @ rest) acc = patchFromText_body rest (acc @ diffs p))"
proof -
  obtain ls where ls: "patch_bodyLines (diffs p) = Inr ls"
    and s: "s = replace20 (headerLine p @ 10 # (concat ls @ []))"
    using assms(2) by (auto simp: patch_toString_def headerLine_def Let_def split: sum.splits)
  from patch_bodyLines_props[OF ls] obtain ls' where
    r: "\<And>t. replace20 (concat ls @ t) = concat (map (\<lambda>l. l @ [10]) ls') @ replace20 t"
    and n: "\<forall>l\<in>set ls'. 10 \<notin> set l"
    and b: "\<And>acc rest. patchFromText_body (ls' @ rest) acc = patchFromText_body rest (acc @ diffs p)"
    by blast
  have "37 \<notin> set (headerLine p)" using headerLine_chars[OF assms(1)] by simp
  then have "s = headerLine p @ replace20 (10 # (concat ls @ []))"
    unfolding s by (rule replace20_no_pct)
  then have "s = headerLine p @ 10 # concat (map (\<lambda>l. l @ [10]) ls')"
    using r[of "[]"] by (simp add: replace20_not_pct)
  then show ?thesis using n b by blast
qed

lemma splitOn_lines:
  "\<forall>l\<in>set ls. sep \<notin> set l \<Longrightarrow>
   splitOn sep (concat (map (\<lambda>l. l @ [sep]) ls) @ t) = ls @ splitOn sep t"
  by (induction ls) (simp_all add: splitOn_append)

lemma patchFromText_body_blank: "patchFromText_body [[]] ds = Inr (ds, [])"
  by (simp add: decodeURI_Nil)

lemma patchFromText_body_header:
  assumes "h \<noteq> []" "hd h = 64" "37 \<notin> set h"
  shows "patchFromText_body (h # rest) ds = Inr (ds, h # rest)"
proof -
  have "37 \<notin> set (drop 1 h)" using assms(3) by (meson in_set_dropD)
  then have "decodeURI (drop 1 h) = Inr (drop 1 h)" by (rule decodeURI_no_pct)
  then show ?thesis using assms by simp
qed

lemma patchToText_parse:
  "ps \<noteq> [] \<Longrightarrow> \<forall>p\<in>set ps. startsOk p \<Longrightarrow> patchToText ps = Inr t \<Longrightarrow>
   \<exists>h L. splitOn 10 t = (h # L) @ [[]] \<and> h \<noteq> [] \<and> hd h = 64 \<and> 37 \<notin> set h \<and> t \<noteq> [] \<and>
         (\<forall>acc. patchFromText_loop ((h # L) @ [[]]) acc = Inr (acc @ ps))"
proof (induction ps arbitrary: t)
  case Nil
  then show ?case by simp
next
  case (Cons p ps)
  from Cons.prems(3) obtain s r where s: "patch_toString p = Inr s" and r: "patchToText ps = Inr r"
    and t: "t = s @ r"
    by (auto split: sum.splits)
  have ok: "startsOk p" using Cons.prems(2) by simp
  from patch_toString_props[OF ok s] obtain ls' where
    s': "s = headerLine p @ 10 # concat (map (\<lambda>l. l @ [10]) ls')"
    and n: "\<forall>l\<in>set ls'. 10 \<notin> set l"
    and b: "\<And>acc rest. patchFromText_body (ls' @ rest) acc = patchFromText_body rest (acc @ diffs p)"
    by blast
  note hc = headerLine_chars[OF ok]
  from patchHeader_headerLine[OF ok] obtain m1 m2 m3 m4 where
    ph: "patchHeader (headerLine p) = Some (m1, m2, m3, m4)"
    and h12: "headerSide m1 m2 = (start1 p, length1 p)"
    and h34: "headerSide m3 m4 = (start2 p, length2 p)"
    by blast
  have sp: "splitOn 10 t = headerLine p # ls' @ splitOn 10 r"
  proof -
    have "t = headerLine p @ 10 # (concat (map (\<lambda>l. l @ [10]) ls') @ r)" by (simp add: t s')
    then have "splitOn 10 t = headerLine p # splitOn 10 (concat (map (\<lambda>l. l @ [10]) ls') @ r)"
      using hc by (simp add: splitOn_append)
    then show ?thesis using n by (simp add: splitOn_lines)
  qed
  have pe: "\<lparr> diffs = diffs p, start1 = fst (headerSide m1 m2), start2 = fst (headerSide m3 m4),
              length1 = snd (headerSide m1 m2), length2 = snd (headerSide m3 m4) \<rparr> = p"
    by (simp add: h12 h34)
  have tne: "t \<noteq> []" using hc by (simp add: t s')
  show ?case
  proof (cases "ps = []")
    case True
    then have rnil: "r = []" using r by simp
    have sp': "splitOn 10 t = (headerLine p # ls') @ [[]]" using sp rnil by simp
    have "patchFromText_loop ((headerLine p # ls') @ [[]]) acc = Inr (acc @ p # ps)" for acc
    proof -
      have "patchFromText_body (ls' @ [[]]) [] = patchFromText_body [[]] ([] @ diffs p)"
        by (rule b)
      then have bd: "patchFromText_body (ls' @ [[]]) [] = Inr (diffs p, [])"
        by (simp only: append_Nil patchFromText_body_blank)
      show ?thesis
        by (simp add: patchFromText_loop.simps ph bd pe True)
    qed
    then show ?thesis using sp' hc tne by blast
  next
    case False
    from Cons.IH[OF False _ r] Cons.prems(2) obtain h L where
      sr: "splitOn 10 r = (h # L) @ [[]]" and h: "h \<noteq> []" "hd h = 64" "37 \<notin> set h"
      and lp: "\<And>acc. patchFromText_loop ((h # L) @ [[]]) acc = Inr (acc @ ps)"
      by auto
    have sp': "splitOn 10 t = (headerLine p # ls' @ h # L) @ [[]]" using sp sr by simp
    have "patchFromText_loop ((headerLine p # ls' @ h # L) @ [[]]) acc = Inr (acc @ p # ps)" for acc
    proof -
      have bd: "patchFromText_body (ls' @ (h # L) @ [[]]) [] = Inr (diffs p, (h # L) @ [[]])"
        using patchFromText_body_header[OF h] by (simp add: b)
      have "patchFromText_loop (headerLine p # (ls' @ (h # L) @ [[]])) acc =
            patchFromText_loop ((h # L) @ [[]]) (acc @ [p])"
        by (subst patchFromText_loop.simps) (simp only: ph option.case prod.case bd sum.case pe)
      then show ?thesis using lp[of "acc @ [p]"] by simp
    qed
    then show ?thesis using sp' hc tne by blast
  qed
qed

lemma patchFromText_patchToText:
  assumes "\<forall>p\<in>set ps. startsOk p" and "patchToText ps = Inr t"
  shows "patchFromText t = Inr ps"
proof (cases "ps = []")
  case True
  then show ?thesis using assms(2) by (simp add: patchFromText_def)
next
  case False
  from patchToText_parse[OF False assms] obtain h L where
    "splitOn 10 t = (h # L) @ [[]]" "t \<noteq> []"
    "\<And>acc. patchFromText_loop ((h # L) @ [[]]) acc = Inr (acc @ ps)"
    by blast
  then show ?thesis using patchFromText_def by (metis append_Nil)
qed

text \<open>Every text of a diff list is well-formed UTF-16.\<close>

fun textsWellFormed :: "Diff list \<Rightarrow> bool" where
  "textsWellFormed [] = True"
| "textsWellFormed (d # ds) = (wellFormed (snd d) \<and> textsWellFormed ds)"

fun patchesWellFormed :: "patchObj list \<Rightarrow> bool" where
  "patchesWellFormed [] = True"
| "patchesWellFormed (p # ps) = (textsWellFormed (diffs p) \<and> patchesWellFormed ps)"

lemma patch_bodyLines_wellFormed:
  "patch_bodyLines ds = (if textsWellFormed ds then patch_bodyLines ds else Inl URIError) \<and>
   (textsWellFormed ds \<longrightarrow> (\<exists>ls. patch_bodyLines ds = Inr ls))"
proof (induction ds)
  case Nil
  then show ?case by simp
next
  case (Cons d ds)
  show ?case
  proof (cases "wellFormed (snd d)")
    case True
    from encodeURI_wellFormed[OF True] obtain e where e: "encodeURI (snd d) = Inr e" ..
    show ?thesis
    proof (cases "textsWellFormed ds")
      case True
      then show ?thesis using Cons e \<open>wellFormed (snd d)\<close> by auto
    next
      case False
      then have "patch_bodyLines ds = Inl URIError" using Cons by simp
      then show ?thesis using e False by simp
    qed
  next
    case False
    then show ?thesis using encodeURI_not_wellFormed[OF False] by simp
  qed
qed

lemma patchToText_wellFormed:
  "if patchesWellFormed ps then \<exists>t. patchToText ps = Inr t else patchToText ps = Inl URIError"
proof (induction ps)
  case Nil
  then show ?case by simp
next
  case (Cons p ps)
  show ?case
  proof (cases "textsWellFormed (diffs p)")
    case True
    then obtain ls where "patch_bodyLines (diffs p) = Inr ls"
      using patch_bodyLines_wellFormed[of "diffs p"] by auto
    then obtain s where s: "patch_toString p = Inr s" by (simp add: patch_toString_def Let_def)
    show ?thesis using Cons True s by (auto split: if_splits)
  next
    case False
    then have "patch_bodyLines (diffs p) = Inl URIError"
      using patch_bodyLines_wellFormed[of "diffs p"] by simp
    then have "patch_toString p = Inl URIError" by (simp add: patch_toString_def Let_def)
    then show ?thesis using False by simp
  qed
qed


subsection \<open>The starts of the patches that patchMake builds\<close>

text \<open>
  \<open>patchMake\<close> gives a new patch the two character counts as starts, and the counts are
  equal whenever a patch is begun; \<open>patchAddContext_\<close> moves both starts back by the length
  of the prefix, which is at most the start.
\<close>

definition startsSame :: "patchObj \<Rightarrow> bool" where
  "startsSame p = (case start1 p of None \<Rightarrow> False | Some a \<Rightarrow> start2 p = Some a \<and> 0 \<le> a)"

definition patchMake_inv :: "patchObj \<Rightarrow> nat \<Rightarrow> nat \<Rightarrow> bool" where
  "patchMake_inv patch c1 c2 = (if diffs patch = [] then c1 = c2 else startsSame patch)"

lemma startsSame_startsOk: "startsSame p \<Longrightarrow> startsOk p"
  by (auto simp: startsSame_def startsOk_def split: option.splits)

lemma substring_int_prefix_length:
  assumes "0 \<le> a"
  shows "int (length (substring_int tx (a - int padding) a)) \<le> a"
proof -
  have "length (substring tx x y) \<le> max x y - min x y" for x y
    by (simp add: substring_def)
  then have "length (substring_int tx (a - int padding) a) \<le>
             max (nat (a - int padding)) (nat a) - min (nat (a - int padding)) (nat a)"
    unfolding substring_int_def .
  also have "\<dots> \<le> nat a" by simp
  finally show ?thesis using assms by linarith
qed

lemma patchAddContext_starts:
  assumes "startsSame patch" and "patchAddContext dmp patch tx = Some (Inr p)"
  shows "startsSame p"
proof (cases "length tx = 0")
  case True
  then show ?thesis using assms by (simp add: patchAddContext_def)
next
  case False
  obtain a where a: "start1 patch = Some a" "start2 patch = Some a" "0 \<le> a"
    using assms(1) by (auto simp: startsSame_def split: option.splits)
  obtain padding0 where l: "patchAddContext_loop dmp tx a (length1 patch) 0 = Some padding0"
    using assms(2) False a by (auto simp: patchAddContext_def split: option.splits)
  define padding where "padding = padding0 + patchMargin dmp"
  define prefix where "prefix = substring_int tx (a - int padding) a"
  have s: "start1 p = Some (a - int (length prefix)) \<and> start2 p = Some (a - int (length prefix))"
    using assms(2) False a l
    unfolding patchAddContext_def Let_def prefix_def padding_def
    by (auto simp: num_def)
  have "int (length prefix) \<le> a" unfolding prefix_def by (rule substring_int_prefix_length[OF a(3)])
  then show ?thesis using s by (simp add: startsSame_def)
qed

lemma patchMake_inv_new: "patchMake_inv new_patchObj c c"
  by (simp add: patchMake_inv_def new_patchObj_def)

lemma patchMake_inv_begin:
  assumes "patchMake_inv patch c1 c2"
  shows "startsSame (if diffs patch = [] \<and> fst d \<noteq> DIFF_EQUAL
           then patch\<lparr>start1 := Some (int c1), start2 := Some (int c2)\<rparr> else patch) \<or>
         ((if diffs patch = [] \<and> fst d \<noteq> DIFF_EQUAL
           then patch\<lparr>start1 := Some (int c1), start2 := Some (int c2)\<rparr> else patch) = patch \<and>
          diffs patch = [] \<and> c1 = c2)"
  using assms by (auto simp: patchMake_inv_def startsSame_def split: if_splits)

lemma patchMake_inv_grow:
  "startsSame q \<Longrightarrow> diffs q' \<noteq> [] \<Longrightarrow> start1 q' = start1 q \<Longrightarrow> start2 q' = start2 q \<Longrightarrow>
   patchMake_inv q' c1 c2"
  by (simp add: patchMake_inv_def startsSame_def split: option.splits)

lemma patchMake_loop_starts:
  "\<forall>p\<in>set patches. startsSame p \<Longrightarrow> patchMake_inv patch c1 c2 \<Longrightarrow>
   patchMake_loop dmp ds patches patch c1 c2 pre post = Some (Inr r) \<Longrightarrow>
   \<forall>p\<in>set r. startsSame p"
proof (induction ds arbitrary: patches patch c1 c2 pre post)
  case Nil
  show ?case
  proof (cases "diffs patch = []")
    case True
    then show ?thesis using Nil by simp
  next
    case False
    then have s: "startsSame patch" using Nil.prems(2) by (simp add: patchMake_inv_def)
    from Nil.prems(3) False obtain p where ac: "patchAddContext dmp patch pre = Some (Inr p)"
      and r: "r = patches @ [p]"
      by (auto split: option.splits sum.splits)
    show ?thesis using Nil.prems(1) patchAddContext_starts[OF s ac] by (simp add: r)
  qed
next
  case (Cons d rest)
  define patch1 where "patch1 = (if diffs patch = [] \<and> fst d \<noteq> DIFF_EQUAL
      then patch\<lparr>start1 := Some (int c1), start2 := Some (int c2)\<rparr> else patch)"
  have b1: "startsSame patch1 \<or> (patch1 = patch \<and> diffs patch = [] \<and> c1 = c2)"
    unfolding patch1_def by (rule patchMake_inv_begin[OF Cons.prems(2)])
  have ne: "fst d \<noteq> DIFF_EQUAL \<Longrightarrow> startsSame patch1"
    using Cons.prems(2) by (auto simp: patch1_def patchMake_inv_def startsSame_def split: if_splits)
  have d1: "diffs patch1 \<noteq> [] \<Longrightarrow> startsSame patch1"
    using b1 by auto
  have u: "patchMake_loop dmp (d # rest) patches patch c1 c2 pre post =
     (case fst d of
           DIFF_INSERT \<Rightarrow>
             patchMake_loop dmp rest patches
               (patch1\<lparr>diffs := diffs patch1 @ [d], length2 := length2 patch1 + length (snd d)\<rparr>)
               c1 (c2 + length (snd d)) pre
               (substring post 0 c2 @ snd d @ substring_from post c2)
         | DIFF_DELETE \<Rightarrow>
             patchMake_loop dmp rest patches
               (patch1\<lparr>length1 := length1 patch1 + length (snd d), diffs := diffs patch1 @ [d]\<rparr>)
               (c1 + length (snd d)) c2 pre
               (substring post 0 c2 @ substring_from post (c2 + length (snd d)))
         | DIFF_EQUAL \<Rightarrow>
             if length (snd d) \<le> 2 * patchMargin dmp \<and> diffs patch1 \<noteq> [] \<and> rest \<noteq> [] then
               patchMake_loop dmp rest patches
                 (patch1\<lparr>diffs := diffs patch1 @ [d],
                        length1 := length1 patch1 + length (snd d),
                        length2 := length2 patch1 + length (snd d)\<rparr>)
                 (c1 + length (snd d)) (c2 + length (snd d)) pre post
             else if 2 * patchMargin dmp \<le> length (snd d) \<and> diffs patch1 \<noteq> [] then
               (case patchAddContext dmp patch1 pre of
                  None \<Rightarrow> None
                | Some (Inl e) \<Rightarrow> Some (Inl e)
                | Some (Inr p) \<Rightarrow>
                    patchMake_loop dmp rest (patches @ [p]) new_patchObj
                      (c2 + length (snd d)) (c2 + length (snd d)) post post)
             else
               patchMake_loop dmp rest patches patch1
                 (c1 + length (snd d)) (c2 + length (snd d)) pre post)"
    unfolding patch1_def patchMake_loop.simps Let_def ..
  show ?case
  proof (cases "fst d")
    case DIFF_INSERT
    from Cons.prems(3)[unfolded u] DIFF_INSERT
    have rec: "patchMake_loop dmp rest patches
               (patch1\<lparr>diffs := diffs patch1 @ [d], length2 := length2 patch1 + length (snd d)\<rparr>)
               c1 (c2 + length (snd d)) pre
               (substring post 0 c2 @ snd d @ substring_from post c2) = Some (Inr r)"
      by simp
    have "startsSame patch1" using ne DIFF_INSERT by simp
    then have "patchMake_inv
        (patch1\<lparr>diffs := diffs patch1 @ [d], length2 := length2 patch1 + length (snd d)\<rparr>)
        c1 (c2 + length (snd d))"
      by (rule patchMake_inv_grow) simp_all
    from Cons.IH[OF Cons.prems(1) this rec] show ?thesis .
  next
    case DIFF_DELETE
    from Cons.prems(3)[unfolded u] DIFF_DELETE
    have rec: "patchMake_loop dmp rest patches
               (patch1\<lparr>length1 := length1 patch1 + length (snd d), diffs := diffs patch1 @ [d]\<rparr>)
               (c1 + length (snd d)) c2 pre
               (substring post 0 c2 @ substring_from post (c2 + length (snd d))) = Some (Inr r)"
      by simp
    have "startsSame patch1" using ne DIFF_DELETE by simp
    then have "patchMake_inv
        (patch1\<lparr>length1 := length1 patch1 + length (snd d), diffs := diffs patch1 @ [d]\<rparr>)
        (c1 + length (snd d)) c2"
      by (rule patchMake_inv_grow) simp_all
    from Cons.IH[OF Cons.prems(1) this rec] show ?thesis .
  next
    case DIFF_EQUAL
    consider (a) "length (snd d) \<le> 2 * patchMargin dmp \<and> diffs patch1 \<noteq> [] \<and> rest \<noteq> []"
      | (b) "\<not> (length (snd d) \<le> 2 * patchMargin dmp \<and> diffs patch1 \<noteq> [] \<and> rest \<noteq> [])"
            "2 * patchMargin dmp \<le> length (snd d) \<and> diffs patch1 \<noteq> []"
      | (c) "\<not> (length (snd d) \<le> 2 * patchMargin dmp \<and> diffs patch1 \<noteq> [] \<and> rest \<noteq> [])"
            "\<not> (2 * patchMargin dmp \<le> length (snd d) \<and> diffs patch1 \<noteq> [])"
      by blast
    then show ?thesis
    proof cases
      case a
      from Cons.prems(3)[unfolded u] DIFF_EQUAL
      have rec: "patchMake_loop dmp rest patches (patch1\<lparr>diffs := diffs patch1 @ [d],
              length1 := length1 patch1 + length (snd d),
              length2 := length2 patch1 + length (snd d)\<rparr>)
            (c1 + length (snd d)) (c2 + length (snd d)) pre post = Some (Inr r)"
        by (simp only: op.case if_P[OF a])
      have "startsSame patch1" using d1 a by simp
      then have "patchMake_inv (patch1\<lparr>diffs := diffs patch1 @ [d],
              length1 := length1 patch1 + length (snd d),
              length2 := length2 patch1 + length (snd d)\<rparr>)
            (c1 + length (snd d)) (c2 + length (snd d))"
        by (rule patchMake_inv_grow) simp_all
      from Cons.IH[OF Cons.prems(1) this rec] show ?thesis .
    next
      case b
      from Cons.prems(3)[unfolded u] DIFF_EQUAL
      have "(case patchAddContext dmp patch1 pre of
                  None \<Rightarrow> None
                | Some (Inl e) \<Rightarrow> Some (Inl e)
                | Some (Inr p) \<Rightarrow>
                    patchMake_loop dmp rest (patches @ [p]) new_patchObj
                      (c2 + length (snd d)) (c2 + length (snd d)) post post) = Some (Inr r)"
        by (simp only: op.case if_not_P[OF b(1)] if_P[OF b(2)])
      then obtain p where ac: "patchAddContext dmp patch1 pre = Some (Inr p)"
        and rec: "patchMake_loop dmp rest (patches @ [p]) new_patchObj
            (c2 + length (snd d)) (c2 + length (snd d)) post post = Some (Inr r)"
        by (auto split: option.splits sum.splits)
      have s1: "startsSame patch1" using d1 b(2) by simp
      have "\<forall>q\<in>set (patches @ [p]). startsSame q"
        using Cons.prems(1) patchAddContext_starts[OF s1 ac] by auto
      from Cons.IH[OF this patchMake_inv_new rec] show ?thesis .
    next
      case c
      from Cons.prems(3)[unfolded u] DIFF_EQUAL
      have rec: "patchMake_loop dmp rest patches patch1
            (c1 + length (snd d)) (c2 + length (snd d)) pre post = Some (Inr r)"
        by (simp only: op.case if_not_P[OF c(1)] if_not_P[OF c(2)])
      have "patch1 = patch" using DIFF_EQUAL by (simp add: patch1_def)
      then have "patchMake_inv patch1 (c1 + length (snd d)) (c2 + length (snd d))"
        using Cons.prems(2) by (simp add: patchMake_inv_def)
      from Cons.IH[OF Cons.prems(1) this rec] show ?thesis .
    qed
  qed
qed

lemma patchMake_from_starts:
  "patchMake_from dmp text1 ds = Some (Inr r) \<Longrightarrow> \<forall>p\<in>set r. startsOk p"
  unfolding patchMake_from_def
  using patchMake_loop_starts[of "[]" new_patchObj 0 0 dmp ds text1 text1 r] startsSame_startsOk
  by (auto simp: patchMake_inv_new split: if_splits)


subsection \<open>Patches made by patchMake, as text\<close>

text \<open>
  The example of the repository's \<open>testPatchMake\<close>: the diffs between
  \<open>The quick brown fox jumps over the lazy dog.\<close> and
  \<open>That quick brown fox jumped over a lazy dog.\<close>, the two patches made from them, and
  their text.
\<close>

definition foxText :: jsstring where
  "foxText = js ''The quick brown fox jumps over the lazy dog.''"

definition foxDiffs :: "Diff list" where
  "foxDiffs = [(DIFF_EQUAL, js ''Th''), (DIFF_DELETE, js ''e''), (DIFF_INSERT, js ''at''),
     (DIFF_EQUAL, js '' quick brown fox jump''), (DIFF_DELETE, js ''s''), (DIFF_INSERT, js ''ed''),
     (DIFF_EQUAL, js '' over ''), (DIFF_DELETE, js ''the''), (DIFF_INSERT, js ''a''),
     (DIFF_EQUAL, js '' lazy dog.'')]"

definition foxPatches :: "patchObj list" where
  "foxPatches =
     [\<lparr> diffs = [(DIFF_EQUAL, js ''Th''), (DIFF_DELETE, js ''e''), (DIFF_INSERT, js ''at''),
                 (DIFF_EQUAL, js '' quick b'')],
        start1 = Some 0, start2 = Some 0, length1 = 11, length2 = 12 \<rparr>,
      \<lparr> diffs = [(DIFF_EQUAL, js ''jump''), (DIFF_DELETE, js ''s''), (DIFF_INSERT, js ''ed''),
                 (DIFF_EQUAL, js '' over ''), (DIFF_DELETE, js ''the''), (DIFF_INSERT, js ''a''),
                 (DIFF_EQUAL, js '' laz'')],
        start1 = Some 21, start2 = Some 21, length1 = 18, length2 = 17 \<rparr>]"

definition foxPatchText :: jsstring where
  "foxPatchText =
     js ''@@ -1,11 +1,12 @@'' @ [10] @ js '' Th'' @ [10] @ js ''-e'' @ [10] @ js ''+at'' @ [10] @
     js ''  quick b'' @ [10] @
     js ''@@ -22,18 +22,17 @@'' @ [10] @ js '' jump'' @ [10] @ js ''-s'' @ [10] @ js ''+ed'' @ [10] @
     js ''  over '' @ [10] @ js ''-the'' @ [10] @ js ''+a'' @ [10] @ js ''  laz'' @ [10]"

text \<open>
  The text \<open>ab\<close>, twice U+1F600 (code units D83D DE00), \<open>cX\<close>, with the diffs that delete
  its last character, and the patch \<open>patchMake\<close> builds from them: \<open>patchAddContext_\<close> takes
  the four code units before the deletion as context, which cuts the first U+1F600 in two.
\<close>

definition smileyText :: jsstring where
  "smileyText = js ''ab'' @ [55357, 56832, 55357, 56832] @ js ''cX''"

definition smileyDiffs :: "Diff list" where
  "smileyDiffs =
     [(DIFF_EQUAL, js ''ab'' @ [55357, 56832, 55357, 56832] @ js ''c''), (DIFF_DELETE, js ''X'')]"

definition smileyPatch :: patchObj where
  "smileyPatch =
     \<lparr> diffs = [(DIFF_EQUAL, [56832, 55357, 56832] @ js ''c''), (DIFF_DELETE, js ''X'')],
       start1 = Some 3, start2 = Some 3, length1 = 5, length2 = 4 \<rparr>"

text \<open>
  The two code units of U+1F600 with the diffs that replace its low surrogate: the first
  code unit is kept, the second is deleted and another low surrogate inserted.
\<close>

definition surrogatePatch :: patchObj where
  "surrogatePatch =
     \<lparr> diffs = [(DIFF_EQUAL, [55357]), (DIFF_DELETE, [56832]), (DIFF_INSERT, [56833])],
       start1 = Some 0, start2 = Some 0, length1 = 2, length2 = 2 \<rparr>"

text \<open>
  Claim C8 fails in the code. \<open>patchMake\<close> on a well-formed text and diffs whose texts are
  all well-formed gives one patch whose first diff starts with a lone low surrogate, because
  the context is cut by code unit; \<open>patchObj.toString\<close> calls \<open>encodeURI\<close> on it without a
  guard, so \<open>patchToText\<close> throws URIError and there is no text to parse back. The same
  happens with the patch made from the code-unit diff between U+1F600 and U+1F601.
  (\<open>patchFromText\<close> guards its \<open>decodeURI\<close> and reports the library's own error.)
\<close>

theorem patchToText_lone_surrogate:
  "wellFormed smileyText \<and> textsWellFormed smileyDiffs \<and> diffText1 smileyDiffs = smileyText \<and>
   patchMake_from default_config smileyText smileyDiffs = Some (Inr [smileyPatch]) \<and>
   patchToText [smileyPatch] = Inl URIError \<and>
   patchMake_from default_config [55357, 56832]
     [(DIFF_EQUAL, [55357]), (DIFF_DELETE, [56832]), (DIFF_INSERT, [56833])] =
     Some (Inr [surrogatePatch]) \<and>
   patchToText [surrogatePatch] = Inl URIError"
proof -
  have 0: "wellFormed smileyText \<and> textsWellFormed smileyDiffs \<and>
      diffText1 smileyDiffs = smileyText"
    by (simp add: smileyText_def smileyDiffs_def diffText1_def js_def isLead_def isTrail_def)
  have 1: "patchMake_from default_config smileyText smileyDiffs = Some (Inr [smileyPatch])"
    by code_simp
  have 2: "patchToText [smileyPatch] = Inl URIError"
    by (simp add: smileyPatch_def patch_toString_def isLead_def isTrail_def
        uriReserved_def uriUnescaped_def)
  have 3: "patchMake_from default_config [55357, 56832]
     [(DIFF_EQUAL, [55357]), (DIFF_DELETE, [56832]), (DIFF_INSERT, [56833])] =
     Some (Inr [surrogatePatch])"
    by code_simp
  have 4: "patchToText [surrogatePatch] = Inl URIError"
    by (simp add: surrogatePatch_def patch_toString_def isLead_def isTrail_def
        uriReserved_def uriUnescaped_def)
  from 0 1 2 3 4 show ?thesis by blast
qed

text \<open>
  Where \<open>encodeURI\<close> does not throw, the round trip holds: for every list of patches that
  \<open>patchMake\<close> builds from a source text and a list of diffs, if every diff text of every
  patch is well-formed UTF-16 (every surrogate is half of a pair) then \<open>patchToText\<close>
  returns a text and \<open>patchFromText\<close> of that text returns the list itself: the same patches
  in the same order, each with the same \<open>start1\<close>, \<open>start2\<close>, \<open>length1\<close>, \<open>length2\<close> and
  \<open>diffs\<close>. Otherwise \<open>patchToText\<close> throws URIError.
\<close>

theorem patch_text_roundtrip:
  assumes "patchMake_from dmp text1 ds = Some (Inr ps)"
  shows "if patchesWellFormed ps
         then \<exists>t. patchToText ps = Inr t \<and> patchFromText t = Inr ps
         else patchToText ps = Inl URIError"
proof (cases "patchesWellFormed ps")
  case True
  then obtain t where t: "patchToText ps = Inr t"
    using patchToText_wellFormed[of ps] by auto
  have "\<forall>p\<in>set ps. startsOk p" using assms by (rule patchMake_from_starts)
  from patchFromText_patchToText[OF this t] show ?thesis using True t by simp
next
  case False
  then show ?thesis using patchToText_wellFormed[of ps] by simp
qed

theorem patch_text_roundtrip_witness:
  "patchMake_from default_config foxText foxDiffs = Some (Inr foxPatches) \<and>
   patchesWellFormed foxPatches \<and>
   patchToText foxPatches = Inr foxPatchText \<and>
   patchFromText foxPatchText = Inr foxPatches"
proof -
  have m: "patchMake_from default_config foxText foxDiffs = Some (Inr foxPatches)"
    by code_simp
  have w: "patchesWellFormed foxPatches"
    by (simp add: foxPatches_def js_def isLead_def isTrail_def)
  have n: "showNat (Suc 0) = [49]" "showNat 2 = [50]" "showNat 11 = [49, 49]" "showNat 12 = [49, 50]"
    "showNat 22 = [50, 50]" "showNat 18 = [49, 56]" "showNat 17 = [49, 55]"
    by (simp_all add: showNat.simps[of "Suc 0"] showNat.simps[of 2] showNat.simps[of 11]
        showNat.simps[of 12] showNat.simps[of 22] showNat.simps[of 18] showNat.simps[of 17])
  have t: "patchToText foxPatches = Inr foxPatchText"
    by (simp add: foxPatches_def foxPatchText_def patch_toString_def patch_coords_def showInt_def
        num_def n opChar_def js_def uriReserved_def uriUnescaped_def isLead_def isTrail_def
        pctEncode_def utf8_def hexDigit_def)
  from patch_text_roundtrip[OF m] w t show ?thesis using m by simp
qed


section \<open>Match\<close>


subsection \<open>matchAlphabet\<close>


subsection \<open>matchBitap\<close>











subsection \<open>matchMain\<close>



subsection \<open>matchBitap returns\<close>












end
